theory Spec2Isabelle
  imports Complex_Main "HOL-Library.Word" "HOL-Library.Multiset"
begin

section \<open>The transaction collection\<close>

text \<open>
  A document of the \<^verbatim>\<open>Transaction\<close> model (\<^verbatim>\<open>transactionSchema\<close>, server.js 27--62).
  \<^verbatim>\<open>status\<close> is a string of the schema, restricted by an \<^verbatim>\<open>enum\<close> validator, so it is a
  string here as well; dates are instants in milliseconds since the epoch; \<^verbatim>\<open>null\<close> is
  \<open>None\<close>. JavaScript numbers are reals here. Integers below \<open>2 ^ 53\<close> are doubles and
  their sums, differences and products below \<open>2 ^ 53\<close> are exact; where the code computes
  with fractions (\<^verbatim>\<open>generateUTRId\<close>) every operation is rounded to a double by \<open>to_double\<close>.
\<close>

record transaction =
  transactionId :: string
  utrId :: "string option"
  amount :: real
  description :: string
  status :: string
  upiId :: string
  date :: int
  paymentDate :: "int option"

text \<open>
  The server as far as the routes see it: the collection, in insertion order, and the
  callbacks handed to \<^verbatim>\<open>setTimeout\<close> that have not run yet, each one closed over the
  \<^verbatim>\<open>transactionId\<close> of its request.
\<close>

record server =
  db :: "transaction list"
  timers :: "string list"

text \<open>\<^verbatim>\<open>res.status(c).json(payload)\<close>: a payload, or one of the \<^verbatim>\<open>{ message }\<close> error bodies.\<close>

datatype 'a response = Reply nat 'a | Failure nat string

section \<open>Identifier generators\<close>

text \<open>\<^verbatim>\<open>Number.prototype.toString(radix)\<close> on an integer, and \<^verbatim>\<open>String.prototype.toUpperCase\<close>.\<close>

definition digit_chars :: string where
  "digit_chars = ''0123456789abcdefghijklmnopqrstuvwxyz''"

function digits_radix :: "nat \<Rightarrow> nat \<Rightarrow> string" where
  "digits_radix b n =
     (if n < b \<or> b < 2 then [digit_chars ! n]
      else digits_radix b (n div b) @ [digit_chars ! (n mod b)])"
  by pat_completeness auto
termination
  by (relation "measure (\<lambda>(b, n). n)") auto

declare digits_radix.simps [simp del]

definition number_toString :: "nat \<Rightarrow> int \<Rightarrow> string" where
  "number_toString radix i =
     (if i < 0 then CHR ''-'' # digits_radix radix (nat (- i)) else digits_radix radix (nat i))"

definition upper_char :: "char \<Rightarrow> char" where
  "upper_char c =
     (case map_of (zip ''abcdefghijklmnopqrstuvwxyz'' ''ABCDEFGHIJKLMNOPQRSTUVWXYZ'') c of
        None \<Rightarrow> c
      | Some u \<Rightarrow> u)"

definition toUpperCase :: "string \<Rightarrow> string" where
  "toUpperCase s = map upper_char s"

text \<open>\<^verbatim>\<open>Buffer.toString('hex')\<close>: two hexadecimal digits for each byte.\<close>

definition hex_byte :: "8 word \<Rightarrow> string" where
  "hex_byte w = [digit_chars ! (unat w div 16), digit_chars ! (unat w mod 16)]"

definition buffer_toHex :: "8 word list \<Rightarrow> string" where
  "buffer_toHex bs = concat (map hex_byte bs)"

text \<open>
  \<^verbatim>\<open>generateTransactionId\<close> (server.js 67--69); its arguments are what \<^verbatim>\<open>Date.now()\<close> and
  \<^verbatim>\<open>crypto.randomBytes(2)\<close> return.
\<close>

definition generateTransactionId :: "int \<Rightarrow> 8 word list \<Rightarrow> string" where
  "generateTransactionId now bytes =
     ''TXN'' @ toUpperCase (number_toString 36 now) @ toUpperCase (buffer_toHex bytes)"

text \<open>
  The arithmetic of JavaScript numbers: IEEE 754 binary64, rounding to nearest, ties to
  even. \<open>round_binary p emin\<close> rounds a real to the nearest number of the form
  \<open>m * 2 ^ k / 2 ^ emin\<close> with \<open>m < 2 ^ p\<close>: scaled by \<open>2 ^ emin\<close>, a number of \<open>L\<close> bits keeps
  its leading \<open>p\<close> bits and loses the \<open>L - p\<close> bits below them (none when \<open>L \<le> p\<close>, so the
  subnormal numbers are spaced \<open>1 / 2 ^ emin\<close>). A double has \<open>p = 53\<close> and \<open>emin = 1074\<close>.
  Overflow to an infinity, beyond \<open>2 ^ 1024\<close>, is not modelled: no number of this program
  comes near it.
\<close>

fun bit_length :: "nat \<Rightarrow> nat" where
  "bit_length n = (if n = 0 then 0 else Suc (bit_length (n div 2)))"

declare bit_length.simps [simp del]

definition round_half_even :: "real \<Rightarrow> int" where
  "round_half_even x =
     (let n = \<lfloor>x\<rfloor>; d = x - of_int n in
      if d < 1 / 2 then n else if 1 / 2 < d then n + 1 else if even n then n else n + 1)"

definition round_binary :: "nat \<Rightarrow> nat \<Rightarrow> real \<Rightarrow> real" where
  "round_binary p emin x =
     (let a = \<bar>x\<bar> * 2 ^ emin;
          s = bit_length (nat \<lfloor>a\<rfloor>) - p;
          m = of_int (round_half_even (a / 2 ^ s)) * 2 ^ s / 2 ^ emin
      in if x < 0 then - m else m)"

definition to_double :: "real \<Rightarrow> real" where
  "to_double x = round_binary 53 1074 x"

text \<open>
  \<^verbatim>\<open>generateUTRId\<close> (server.js 72--74); its argument is what \<^verbatim>\<open>Math.random()\<close> returns, a
  double in \<open>[0, 1)\<close>. The product and the sum are each rounded to a double; \<^verbatim>\<open>Math.floor\<close>
  of a double is exact, and so is \<^verbatim>\<open>toString\<close> of an integer below \<open>10 ^ 21\<close>.
\<close>

definition utr_number :: "real \<Rightarrow> int" where
  "utr_number r = \<lfloor>to_double (100000000000 + to_double (r * 900000000000))\<rfloor>"

definition generateUTRId :: "real \<Rightarrow> string" where
  "generateUTRId r = number_toString 10 (utr_number r)"

text \<open>The integer a string of decimal digits denotes (\<open>None\<close> when it is not one).\<close>

definition digit_value :: "char \<Rightarrow> nat option" where
  "digit_value c = map_of (zip ''0123456789'' [0 ..< 10]) c"

fun decimal_value :: "nat \<Rightarrow> string \<Rightarrow> nat option" where
  "decimal_value acc [] = Some acc"
| "decimal_value acc (c # cs) =
     (case digit_value c of
        None \<Rightarrow> None
      | Some d \<Rightarrow> decimal_value (10 * acc + d) cs)"

definition numeric_string :: "string \<Rightarrow> nat option" where
  "numeric_string s = (if s = [] then None else decimal_value 0 s)"

section \<open>Store operations\<close>

text \<open>
  What the routes use of Mongoose. \<^verbatim>\<open>save\<close> inserts at the end of the collection, and the
  unique index on \<^verbatim>\<open>transactionId\<close> (\<^verbatim>\<open>unique: true\<close>) rejects a second document with the
  same id. \<^verbatim>\<open>findOneAndUpdate\<close> changes the first document that matches, and nothing when
  none does. The flag \<open>up\<close> says whether the database answers; when it does not, the
  operation rejects.
\<close>

datatype store_error = DuplicateKey | Unavailable | BadSkip

definition save :: "bool \<Rightarrow> transaction \<Rightarrow> transaction list \<Rightarrow> store_error + transaction list" where
  "save up doc ts =
     (if \<not> up then Inl Unavailable
      else if transactionId doc \<in> set (map transactionId ts) then Inl DuplicateKey
      else Inr (ts @ [doc]))"

fun findOneAndUpdate ::
  "(transaction \<Rightarrow> bool) \<Rightarrow> (transaction \<Rightarrow> transaction) \<Rightarrow> transaction list \<Rightarrow> transaction list" where
  "findOneAndUpdate cond upd [] = []"
| "findOneAndUpdate cond upd (t # ts) =
     (if cond t then upd t # ts else t # findOneAndUpdate cond upd ts)"

fun findOne :: "(transaction \<Rightarrow> bool) \<Rightarrow> transaction list \<Rightarrow> transaction option" where
  "findOne cond [] = None"
| "findOne cond (t # ts) = (if cond t then Some t else findOne cond ts)"

definition countDocuments :: "(transaction \<Rightarrow> bool) \<Rightarrow> transaction list \<Rightarrow> nat" where
  "countDocuments cond ts = length (filter cond ts)"

section \<open>Creating a transaction\<close>

text \<open>
  The fields of \<^verbatim>\<open>req.body\<close>. \<^verbatim>\<open>amount\<close> is a JSON number, \<^verbatim>\<open>null\<close> or missing; \<^verbatim>\<open>description\<close>
  and \<^verbatim>\<open>upiId\<close> are strings or missing. Other JSON types are outside this model.
\<close>

datatype jsvalue = Undefined | Null | Number real

record create_body =
  body_amount :: jsvalue
  body_description :: "string option"
  body_upiId :: "string option"

text \<open>\<^verbatim>\<open>!v\<close> and \<^verbatim>\<open>v <= 0\<close> of JavaScript (\<^verbatim>\<open>undefined\<close> converts to NaN, \<^verbatim>\<open>null\<close> to 0).\<close>

fun falsy :: "jsvalue \<Rightarrow> bool" where
  "falsy Undefined = True"
| "falsy Null = True"
| "falsy (Number x) = (x = 0)"

fun le_zero :: "jsvalue \<Rightarrow> bool" where
  "le_zero Undefined = False"
| "le_zero Null = True"
| "le_zero (Number x) = (x \<le> 0)"

text \<open>\<^verbatim>\<open>s || d\<close> on an optional string: the empty string is falsy too.\<close>

fun or_default :: "string option \<Rightarrow> string \<Rightarrow> string" where
  "or_default None d = d"
| "or_default (Some s) d = (if s = [] then d else s)"

text \<open>The \<^verbatim>\<open>required\<close> number of the schema: a document without one does not validate.\<close>

fun cast_number :: "jsvalue \<Rightarrow> real option" where
  "cast_number (Number x) = Some x"
| "cast_number _ = None"

text \<open>
  What one request reads from its environment: the clock in \<^verbatim>\<open>generateTransactionId\<close>, the
  random bytes, the clock of the schema's default \<^verbatim>\<open>date\<close>, and the database's state.
\<close>

record create_env =
  id_clock :: int
  id_bytes :: "8 word list"
  doc_clock :: int
  save_up :: bool

record created =
  created_message :: string
  created_transactionId :: string
  created_status :: string

text \<open>\<^verbatim>\<open>app.post('/api/transactions')\<close> (server.js 84--139), up to the response.\<close>

definition create_transaction ::
  "create_env \<Rightarrow> create_body \<Rightarrow> server \<Rightarrow> created response \<times> server" where
  "create_transaction env body s =
     (if falsy (body_amount body) \<or> le_zero (body_amount body)
      then (Failure 400 ''Invalid amount'', s)
      else
        let tid = generateTransactionId (id_clock env) (id_bytes env) in
        case cast_number (body_amount body) of
          None \<Rightarrow> (Failure 500 ''Server error'', s)
        | Some a \<Rightarrow>
            let newTransaction =
              \<lparr>transactionId = tid, utrId = None, amount = a,
               description = or_default (body_description body) ''Payment'',
               status = ''pending'',
               upiId = or_default (body_upiId body) ''8618505915@fam'',
               date = doc_clock env, paymentDate = None\<rparr>
            in
            (case save (save_up env) newTransaction (db s) of
               Inl err \<Rightarrow> (Failure 500 ''Server error'', s)
             | Inr db' \<Rightarrow>
                 (Reply 201
                    \<lparr>created_message = ''Transaction initiated'',
                     created_transactionId = tid, created_status = ''pending''\<rparr>,
                  s\<lparr>db := db', timers := timers s @ [tid]\<rparr>)))"

section \<open>Resolving a transaction\<close>

text \<open>
  What the timer's callback reads: the draw of line 107, the draw inside \<^verbatim>\<open>generateUTRId\<close>,
  \<^verbatim>\<open>new Date()\<close>, and the database's state.
\<close>

record resolve_env =
  outcome_draw :: real
  utr_draw :: real
  resolve_clock :: int
  update_up :: bool

text \<open>
  The callback of \<^verbatim>\<open>setTimeout\<close> (server.js 104--128) for the id \<open>tid\<close>. A rejected update is
  caught and logged, and leaves the collection as it was.
\<close>

definition resolve :: "resolve_env \<Rightarrow> string \<Rightarrow> transaction list \<Rightarrow> transaction list" where
  "resolve env tid ts =
     (let success = (outcome_draw env > 0.1) in
      if success then
        (let utr = generateUTRId (utr_draw env) in
         if update_up env then
           findOneAndUpdate (\<lambda>t. transactionId t = tid)
             (\<lambda>t. t\<lparr>status := ''success'', utrId := Some utr,
                     paymentDate := Some (resolve_clock env)\<rparr>) ts
         else ts)
      else
        (if update_up env then
           findOneAndUpdate (\<lambda>t. transactionId t = tid) (\<lambda>t. t\<lparr>status := ''failed''\<rparr>) ts
         else ts))"

definition fire_timer :: "resolve_env \<Rightarrow> string \<Rightarrow> server \<Rightarrow> server" where
  "fire_timer env tid s = s\<lparr>db := resolve env tid (db s), timers := remove1 tid (timers s)\<rparr>"

text \<open>
  The states of the server: it starts with an empty collection, a request creates a
  transaction, and a pending timer fires, in any order, with draws in \<open>[0, 1)\<close>.
\<close>

inductive reachable :: "server \<Rightarrow> bool" where
  start: "reachable \<lparr>db = [], timers = []\<rparr>"
| request: "reachable s \<Longrightarrow> reachable (snd (create_transaction env body s))"
| timeout: "reachable s \<Longrightarrow> tid \<in> set (timers s) \<Longrightarrow>
     0 \<le> outcome_draw env \<Longrightarrow> outcome_draw env < 1 \<Longrightarrow>
     0 \<le> utr_draw env \<Longrightarrow> utr_draw env < 1 \<Longrightarrow>
     reachable (fire_timer env tid s)"

text \<open>\<^verbatim>\<open>app.get('/api/transactions/:id')\<close> (server.js 142--155).\<close>

definition get_transaction :: "bool \<Rightarrow> string \<Rightarrow> transaction list \<Rightarrow> transaction response" where
  "get_transaction up tid ts =
     (if \<not> up then Failure 500 ''Server error''
      else case findOne (\<lambda>t. transactionId t = tid) ts of
        None \<Rightarrow> Failure 404 ''Transaction not found''
      | Some t \<Rightarrow> Reply 200 t)"

section \<open>Listing transactions\<close>

text \<open>
  The query string of \<^verbatim>\<open>GET /api/transactions\<close>. A date parameter is the instant its text
  denotes and \<^verbatim>\<open>page\<close> and \<^verbatim>\<open>limit\<close> are the integers their decimal texts denote, so that
  \<^verbatim>\<open>page - 1\<close>, \<^verbatim>\<open>parseInt(page)\<close> and \<^verbatim>\<open>total / limit\<close> read the same number; a missing (or,
  for a date, empty) parameter is \<open>None\<close>. Text that is no date or no integer is outside
  this model.
\<close>

record list_query =
  query_status :: "string option"
  query_startDate :: "int option"
  query_endDate :: "int option"
  query_page :: "int option"
  query_limit :: "int option"

text \<open>The filter object: \<^verbatim>\<open>{ status?, date?: { $gte?, $lte? } }\<close>.\<close>

record date_range =
  gte :: "int option"
  lte :: "int option"

record query_filter =
  filter_status :: "string option"
  filter_date :: "date_range option"

text \<open>The construction of the filter (server.js 161--177), statement by statement.\<close>

definition with_status :: "string option \<Rightarrow> query_filter \<Rightarrow> query_filter" where
  "with_status st f =
     (case st of
        None \<Rightarrow> f
      | Some v \<Rightarrow> if v \<noteq> [] \<and> v \<noteq> ''all'' then f\<lparr>filter_status := Some v\<rparr> else f)"

definition with_startDate :: "int option \<Rightarrow> query_filter \<Rightarrow> query_filter" where
  "with_startDate sd f =
     (case sd of
        None \<Rightarrow> f
      | Some d \<Rightarrow> f\<lparr>filter_date := Some \<lparr>gte = Some d, lte = None\<rparr>\<rparr>)"

definition with_endDate :: "int option \<Rightarrow> query_filter \<Rightarrow> query_filter" where
  "with_endDate ed f =
     (case ed of
        None \<Rightarrow> f
      | Some e \<Rightarrow>
          (case filter_date f of
             Some r \<Rightarrow> f\<lparr>filter_date := Some (r\<lparr>lte := Some e\<rparr>)\<rparr>
           | None \<Rightarrow> f\<lparr>filter_date := Some \<lparr>gte = None, lte = Some e\<rparr>\<rparr>))"

definition build_filter :: "list_query \<Rightarrow> query_filter" where
  "build_filter q =
     with_endDate (query_endDate q)
       (with_startDate (query_startDate q)
          (with_status (query_status q) \<lparr>filter_status = None, filter_date = None\<rparr>))"

text \<open>When a document satisfies a filter object: every condition present holds.\<close>

definition in_range :: "date_range \<Rightarrow> int \<Rightarrow> bool" where
  "in_range r d =
     ((case gte r of None \<Rightarrow> True | Some lo \<Rightarrow> lo \<le> d) \<and>
      (case lte r of None \<Rightarrow> True | Some hi \<Rightarrow> d \<le> hi))"

definition matches :: "query_filter \<Rightarrow> transaction \<Rightarrow> bool" where
  "matches f t =
     ((case filter_status f of None \<Rightarrow> True | Some v \<Rightarrow> status t = v) \<and>
      (case filter_date f of None \<Rightarrow> True | Some r \<Rightarrow> in_range r (date t)))"

text \<open>
  \<^verbatim>\<open>find(filter).sort({ date: -1 }).skip(skip).limit(n)\<close>. The sort is by descending date
  (documents of equal date keep their insertion order here; MongoDB leaves their order
  open). Of MongoDB: a negative skip is rejected, a limit of 0 is no limit, and a
  negative limit is taken by its absolute value.
\<close>

definition sort_newest_first :: "transaction list \<Rightarrow> transaction list" where
  "sort_newest_first ts = sort_key (\<lambda>t. - date t) ts"

definition find_page ::
  "query_filter \<Rightarrow> int \<Rightarrow> int \<Rightarrow> transaction list \<Rightarrow> store_error + transaction list" where
  "find_page f skip n ts =
     (if skip < 0 then Inl BadSkip
      else
        let found = drop (nat skip) (sort_newest_first (filter (matches f) ts)) in
        Inr (if n = 0 then found else take (nat \<bar>n\<bar>) found))"

text \<open>
  A JavaScript number that may be infinite or NaN, for \<^verbatim>\<open>Math.ceil(total / limit)\<close>
  (the sign of a zero is not kept).
\<close>

datatype jsnumber = Finite real | PosInfinity | NegInfinity | NotANumber

definition js_divide :: "real \<Rightarrow> real \<Rightarrow> jsnumber" where
  "js_divide x y =
     (if y \<noteq> 0 then Finite (x / y)
      else if x = 0 then NotANumber
      else if 0 < x then PosInfinity else NegInfinity)"

fun math_ceil :: "jsnumber \<Rightarrow> jsnumber" where
  "math_ceil (Finite x) = Finite (of_int \<lceil>x\<rceil>)"
| "math_ceil v = v"

record pagination =
  total :: nat
  page :: int
  limit :: int
  pages :: jsnumber

record listing =
  transactions :: "transaction list"
  pagination :: pagination

text \<open>
  \<^verbatim>\<open>app.get('/api/transactions')\<close> (server.js 158--201); \<open>up\<close> as for the store. \<open>page_of\<close>
  and \<open>limit_of\<close> are the destructuring of line 160 with its defaults 1 and 10.
\<close>

definition page_of :: "list_query \<Rightarrow> int" where
  "page_of q = (case query_page q of None \<Rightarrow> 1 | Some v \<Rightarrow> v)"

definition limit_of :: "list_query \<Rightarrow> int" where
  "limit_of q = (case query_limit q of None \<Rightarrow> 10 | Some v \<Rightarrow> v)"

definition list_transactions :: "bool \<Rightarrow> list_query \<Rightarrow> transaction list \<Rightarrow> listing response" where
  "list_transactions up q ts =
     (let pg = page_of q;
          lim = limit_of q;
          f = build_filter q;
          skip = (pg - 1) * lim
      in
      if \<not> up then Failure 500 ''Server error''
      else
        case find_page f skip lim ts of
          Inl err \<Rightarrow> Failure 500 ''Server error''
        | Inr found \<Rightarrow>
            let tot = countDocuments (matches f) ts in
            Reply 200
              \<lparr>transactions = found,
               pagination =
                 \<lparr>total = tot, page = pg, limit = lim,
                  pages = math_ceil (js_divide (of_nat tot) (of_int lim))\<rparr>\<rparr>)"

section \<open>Statistics\<close>

text \<open>
  The four counts and the sum of \<^verbatim>\<open>GET /api/stats\<close> (server.js 204--244). The series of
  the last seven days, which needs the calendar, is not part of this model.
\<close>

record stats =
  totalTransactions :: nat
  successfulTransactions :: nat
  pendingTransactions :: nat
  failedTransactions :: nat
  totalAmount :: real

text \<open>
  The \<^verbatim>\<open>$match\<close>/\<^verbatim>\<open>$group\<close> aggregation: one group with the sum when a document matches, no
  group at all when none does.
\<close>

definition sum_amount :: "(transaction \<Rightarrow> bool) \<Rightarrow> transaction list \<Rightarrow> real list" where
  "sum_amount cond ts =
     (let matched = filter cond ts in
      if matched = [] then [] else [sum_list (map amount matched)])"

definition get_stats :: "bool \<Rightarrow> transaction list \<Rightarrow> stats response" where
  "get_stats up ts =
     (if \<not> up then Failure 500 ''Server error''
      else
        let totalAmount = sum_amount (\<lambda>t. status t = ''success'') ts in
        Reply 200
          \<lparr>totalTransactions = countDocuments (\<lambda>t. True) ts,
           successfulTransactions = countDocuments (\<lambda>t. status t = ''success'') ts,
           pendingTransactions = countDocuments (\<lambda>t. status t = ''pending'') ts,
           failedTransactions = countDocuments (\<lambda>t. status t = ''failed'') ts,
           totalAmount = (if length totalAmount > 0 then hd totalAmount else 0)\<rparr>)"

section \<open>The invariant of the server\<close>

text \<open>
  What holds of every document in every state of the server: a pending document has
  neither reference nor payment date; a successful one has both, a failed one neither,
  and no timer is left for either. Ids are unique, and every timer belongs to a document.
\<close>

definition consistent :: "string list \<Rightarrow> transaction \<Rightarrow> bool" where
  "consistent waiting t =
     (if status t = ''pending'' then utrId t = None \<and> paymentDate t = None
      else if status t = ''success''
        then utrId t \<noteq> None \<and> paymentDate t \<noteq> None \<and> transactionId t \<notin> set waiting
      else status t = ''failed'' \<and> utrId t = None \<and> paymentDate t = None
        \<and> transactionId t \<notin> set waiting)"

definition server_inv :: "server \<Rightarrow> bool" where
  "server_inv s =
     (distinct (map transactionId (db s)) \<and> distinct (timers s)
      \<and> set (timers s) \<subseteq> set (map transactionId (db s))
      \<and> list_all (consistent (timers s)) (db s))"

section \<open>A run of the server\<close>

text \<open>
  One request for an amount of 100 on the empty server, at the instant 1700000000000
  with the random bytes AB CD, and the two ways its timer can go three seconds later:
  a draw of 0.5, and a draw of 0.05.
\<close>

definition run_create_env :: create_env where
  "run_create_env =
     \<lparr>id_clock = 1700000000000, id_bytes = [0xAB, 0xCD], doc_clock = 1700000000000,
      save_up = True\<rparr>"

definition run_body :: create_body where
  "run_body = \<lparr>body_amount = Number 100, body_description = None, body_upiId = None\<rparr>"

definition run_id :: string where
  "run_id = ''TXNLOYW3V28ABCD''"

definition run_pending :: server where
  "run_pending = snd (create_transaction run_create_env run_body \<lparr>db = [], timers = []\<rparr>)"

definition run_success_env :: resolve_env where
  "run_success_env =
     \<lparr>outcome_draw = 0.5, utr_draw = 0.5, resolve_clock = 1700000003000, update_up = True\<rparr>"

definition run_failure_env :: resolve_env where
  "run_failure_env =
     \<lparr>outcome_draw = 0.05, utr_draw = 0.5, resolve_clock = 1700000003000, update_up = True\<rparr>"

definition run_succeeded :: server where
  "run_succeeded = fire_timer run_success_env run_id run_pending"

definition run_failed :: server where
  "run_failed = fire_timer run_failure_env run_id run_pending"

definition run_document :: transaction where
  "run_document =
     \<lparr>transactionId = ''TXNLOYW3V28ABCD'', utrId = None, amount = 100,
      description = ''Payment'', status = ''pending'', upiId = ''8618505915@fam'',
      date = 1700000000000, paymentDate = None\<rparr>"

text \<open>
  Three documents, stored in the order of the dates 1, 3, 2, the middle one successful,
  and a query for their second page of two.
\<close>

definition three_documents :: "transaction list" where
  "three_documents =
     [run_document\<lparr>transactionId := ''TXNA'', date := 1\<rparr>,
      run_document\<lparr>transactionId := ''TXNB'', date := 3, status := ''success'',
        utrId := Some ''550000000000'', paymentDate := Some 4\<rparr>,
      run_document\<lparr>transactionId := ''TXNC'', date := 2\<rparr>]"

definition every_transaction :: list_query where
  "every_transaction =
     \<lparr>query_status = None, query_startDate = None, query_endDate = None,
      query_page = None, query_limit = None\<rparr>"

section \<open>Doubles\<close>

subsection \<open>The length of a number in bits\<close>

lemma bit_length_zero: "bit_length 0 = 0"
  by (simp add: bit_length.simps)

lemma bit_length_one: "bit_length (Suc 0) = Suc 0"
  by (simp add: bit_length.simps [of "Suc 0"] bit_length_zero)

lemma bit_length_bounds:
  "n \<noteq> 0 \<Longrightarrow> 2 ^ (bit_length n - 1) \<le> n \<and> n < 2 ^ bit_length n"
proof (induction n rule: bit_length.induct)
  case (1 n)
  show ?case
  proof (cases "n div 2 = 0")
    case True
    with 1(2) have "n = 1" by auto
    then show ?thesis by (simp add: bit_length_one)
  next
    case False
    with 1 have ih: "2 ^ (bit_length (n div 2) - 1) \<le> n div 2" "n div 2 < 2 ^ bit_length (n div 2)"
      by simp_all
    from False have pos: "bit_length (n div 2) \<noteq> 0" by (simp add: bit_length.simps [of "n div 2"])
    have b: "bit_length n = Suc (bit_length (n div 2))"
      using 1(2) by (simp add: bit_length.simps [of n])
    from pos have e: "(2::nat) ^ bit_length (n div 2) = 2 * 2 ^ (bit_length (n div 2) - 1)"
      by (cases "bit_length (n div 2)") simp_all
    from ih(1) have "2 * 2 ^ (bit_length (n div 2) - 1) \<le> n" by arith
    moreover from ih(2) have "n < 2 * 2 ^ bit_length (n div 2)" by arith
    ultimately show ?thesis by (simp add: b e)
  qed
qed

lemma bit_length_unique:
  assumes "2 ^ k \<le> n" and "n < 2 ^ Suc k"
  shows "bit_length n = Suc k"
proof -
  have nz: "n \<noteq> 0"
  proof
    assume "n = 0"
    with assms(1) show False by simp
  qed
  from bit_length_bounds [OF nz]
  have lo: "2 ^ (bit_length n - 1) \<le> n" and hi: "n < 2 ^ bit_length n" by simp_all
  from lo assms(2) have "(2::nat) ^ (bit_length n - 1) < 2 ^ Suc k" by linarith
  then have 1: "bit_length n - 1 < Suc k"
    by (rule power_less_imp_less_exp [rotated]) simp
  from hi assms(1) have "(2::nat) ^ k < 2 ^ bit_length n" by linarith
  then have 2: "k < bit_length n" by simp
  from 1 2 show ?thesis by arith
qed

lemma bit_length_shift:
  assumes "n \<noteq> 0"
  shows "bit_length (n * 2 ^ d) = bit_length n + d"
proof -
  note b = bit_length_bounds [OF assms]
  from assms have bl: "bit_length n \<noteq> 0" by (simp add: bit_length.simps [of n])
  then obtain k where k: "bit_length n = Suc k" by (cases "bit_length n") auto
  from b k have "2 ^ k \<le> n" "n < 2 ^ Suc k" by simp_all
  then have "2 ^ k * 2 ^ d \<le> n * 2 ^ d" "n * 2 ^ d < 2 ^ Suc k * 2 ^ d" by simp_all
  then have "2 ^ (k + d) \<le> n * 2 ^ d" "n * 2 ^ d < 2 ^ Suc (k + d)"
    by (simp_all add: power_add)
  then have "bit_length (n * 2 ^ d) = Suc (k + d)" by (rule bit_length_unique)
  with k show ?thesis by simp
qed

lemma bit_length_mono: "m \<le> n \<Longrightarrow> bit_length m \<le> bit_length n"
proof (cases "m = 0")
  case True
  then show ?thesis by (simp add: bit_length_zero)
next
  case False
  assume mn: "m \<le> n"
  with False have nz: "n \<noteq> 0" by simp
  from bit_length_bounds [OF False] have lo: "2 ^ (bit_length m - 1) \<le> m" by simp
  from bit_length_bounds [OF nz] have hi: "n < 2 ^ bit_length n" by simp
  from lo hi mn have "(2::nat) ^ (bit_length m - 1) < 2 ^ bit_length n" by linarith
  then have "bit_length m - 1 < bit_length n" by simp
  then show ?thesis by arith
qed

subsection \<open>Rounding to the nearest integer\<close>

lemma round_half_even_cases: "round_half_even x = \<lfloor>x\<rfloor> \<or> round_half_even x = \<lfloor>x\<rfloor> + 1"
  by (simp add: round_half_even_def Let_def)

lemma round_half_even_of_int: "round_half_even (of_int k) = k"
  by (simp add: round_half_even_def Let_def)

lemma round_half_even_of_nat: "round_half_even (of_nat k) = int k"
  using round_half_even_of_int [of "int k"] by simp

lemma round_half_even_mono:
  assumes "x \<le> y"
  shows "round_half_even x \<le> round_half_even y"
proof (cases "\<lfloor>x\<rfloor> < \<lfloor>y\<rfloor>")
  case True
  have "round_half_even x \<le> \<lfloor>x\<rfloor> + 1" using round_half_even_cases [of x] by auto
  moreover have "\<lfloor>y\<rfloor> \<le> round_half_even y" using round_half_even_cases [of y] by auto
  ultimately show ?thesis using True by linarith
next
  case False
  with assms have eq: "\<lfloor>x\<rfloor> = \<lfloor>y\<rfloor>" using floor_mono [OF assms] by linarith
  have "x - of_int \<lfloor>y\<rfloor> \<le> y - of_int \<lfloor>y\<rfloor>" using assms by simp
  then show ?thesis
    by (auto simp: round_half_even_def Let_def eq)
qed

lemma round_half_even_down:
  assumes "of_int k \<le> x" and "x < of_int k + 1 / 2"
  shows "round_half_even x = k"
proof -
  from assms have "\<lfloor>x\<rfloor> = k" by linarith
  with assms show ?thesis by (simp add: round_half_even_def Let_def)
qed

lemma round_half_even_up:
  assumes "of_int k - 1 / 2 < x" and "x \<le> of_int k"
  shows "round_half_even x = k"
proof (cases "x = of_int k")
  case True
  then show ?thesis by (simp add: round_half_even_of_int)
next
  case False
  with assms have "\<lfloor>x\<rfloor> = k - 1" by linarith
  with assms False show ?thesis by (simp add: round_half_even_def Let_def)
qed


lemma bit_length_le:
  assumes "n < 2 ^ k"
  shows "bit_length n \<le> k"
proof (cases "n = 0")
  case True
  then show ?thesis by (simp add: bit_length_zero)
next
  case False
  from bit_length_bounds [OF False] have "2 ^ (bit_length n - 1) \<le> n" by simp
  with assms have "(2::nat) ^ (bit_length n - 1) < 2 ^ k" by linarith
  then have "bit_length n - 1 < k" by (rule power_less_imp_less_exp [rotated]) simp
  then show ?thesis by arith
qed

subsection \<open>Rounding to a binary format\<close>

lemma round_binary_nonneg:
  assumes "0 \<le> x"
  shows "round_binary p e x =
     of_int (round_half_even (x * 2 ^ e / 2 ^ (bit_length (nat \<lfloor>x * 2 ^ e\<rfloor>) - p)))
       * 2 ^ (bit_length (nat \<lfloor>x * 2 ^ e\<rfloor>) - p) / 2 ^ e"
  using assms by (simp add: round_binary_def Let_def)

lemma below_bit_length:
  fixes a :: real
  assumes "0 \<le> a"
  shows "a < 2 ^ bit_length (nat \<lfloor>a\<rfloor>)"
proof (cases "nat \<lfloor>a\<rfloor> = 0")
  case True
  with assms have "a < 1" by linarith
  with True show ?thesis by (simp add: bit_length_zero)
next
  case False
  from bit_length_bounds [OF False] have "nat \<lfloor>a\<rfloor> < 2 ^ bit_length (nat \<lfloor>a\<rfloor>)" by simp
  then have "\<lfloor>a\<rfloor> < 2 ^ bit_length (nat \<lfloor>a\<rfloor>)"
    using assms by (simp add: nat_less_iff)
  then have "a < of_int (2 ^ bit_length (nat \<lfloor>a\<rfloor>))" by (simp only: floor_less_iff)
  then show ?thesis by simp
qed

lemma above_bit_length:
  fixes a :: real
  assumes "0 \<le> a" and "bit_length (nat \<lfloor>a\<rfloor>) \<noteq> 0"
  shows "2 ^ (bit_length (nat \<lfloor>a\<rfloor>) - 1) \<le> a"
proof -
  from assms(2) have nz: "nat \<lfloor>a\<rfloor> \<noteq> 0" by (auto simp: bit_length_zero)
  from bit_length_bounds [OF nz] have "2 ^ (bit_length (nat \<lfloor>a\<rfloor>) - 1) \<le> nat \<lfloor>a\<rfloor>" by simp
  then have "real (2 ^ (bit_length (nat \<lfloor>a\<rfloor>) - 1)) \<le> real (nat \<lfloor>a\<rfloor>)"
    by (simp only: of_nat_le_iff)
  also have "real (nat \<lfloor>a\<rfloor>) \<le> a" using assms(1) by simp
  finally show ?thesis by simp
qed

lemma round_binary_mono:
  assumes p: "1 \<le> p" and x: "0 \<le> x" and xy: "x \<le> y"
  shows "round_binary p e x \<le> round_binary p e y"
proof -
  define a where "a = x * 2 ^ e"
  define b where "b = y * 2 ^ e"
  define s where "s = bit_length (nat \<lfloor>a\<rfloor>) - p"
  define t where "t = bit_length (nat \<lfloor>b\<rfloor>) - p"
  from x xy have y: "0 \<le> y" by simp
  from x have a0: "0 \<le> a" by (simp add: a_def)
  from xy have ab: "a \<le> b" by (simp add: a_def b_def)
  with a0 have b0: "0 \<le> b" by simp
  from ab have "nat \<lfloor>a\<rfloor> \<le> nat \<lfloor>b\<rfloor>" by (simp add: floor_mono nat_mono)
  then have "bit_length (nat \<lfloor>a\<rfloor>) \<le> bit_length (nat \<lfloor>b\<rfloor>)" by (rule bit_length_mono)
  then have st: "s \<le> t" by (simp add: s_def t_def)
  have main: "real_of_int (round_half_even (a / 2 ^ s)) * 2 ^ s
      \<le> real_of_int (round_half_even (b / 2 ^ t)) * 2 ^ t"
  proof (cases "s = t")
    case True
    from ab have "a / 2 ^ t \<le> b / 2 ^ t" by (simp add: divide_right_mono)
    then have "round_half_even (a / 2 ^ t) \<le> round_half_even (b / 2 ^ t)"
      by (rule round_half_even_mono)
    then have "real_of_int (round_half_even (a / 2 ^ t)) \<le> real_of_int (round_half_even (b / 2 ^ t))"
      by simp
    then show ?thesis unfolding True by (simp add: mult_right_mono)
  next
    case False
    with st have lt: "Suc s \<le> t" by simp
    then have tpos: "0 < t" by simp
    then have len: "bit_length (nat \<lfloor>b\<rfloor>) = t + p" by (simp add: t_def)
    with p have "bit_length (nat \<lfloor>b\<rfloor>) \<noteq> 0" by simp
    from above_bit_length [OF b0 this] have "2 ^ (t + p - 1) \<le> b" by (simp add: len)
    moreover from p have "t + p - 1 = (p - 1) + t" by simp
    ultimately have "2 ^ (p - 1) * 2 ^ t \<le> b" by (simp add: power_add)
    then have "2 ^ (p - 1) \<le> b / 2 ^ t" by (simp add: pos_le_divide_eq)
    then have "real (2 ^ (p - 1)) \<le> b / 2 ^ t" by simp
    then have "round_half_even (real (2 ^ (p - 1))) \<le> round_half_even (b / 2 ^ t)"
      by (rule round_half_even_mono)
    then have "int (2 ^ (p - 1)) \<le> round_half_even (b / 2 ^ t)"
      by (simp only: round_half_even_of_nat)
    then have "real_of_int (int (2 ^ (p - 1))) \<le> real_of_int (round_half_even (b / 2 ^ t))"
      by (simp only: of_int_le_iff)
    then have "2 ^ (p - 1) \<le> real_of_int (round_half_even (b / 2 ^ t))" by simp
    then have "2 ^ (p - 1) * 2 ^ t \<le> real_of_int (round_half_even (b / 2 ^ t)) * 2 ^ t"
      by (simp add: mult_right_mono)
    then have hi: "2 ^ (p - 1 + t) \<le> real_of_int (round_half_even (b / 2 ^ t)) * 2 ^ t"
      by (simp add: power_add)
    have "bit_length (nat \<lfloor>a\<rfloor>) \<le> p + s" by (simp add: s_def)
    then have "(2::real) ^ bit_length (nat \<lfloor>a\<rfloor>) \<le> 2 ^ (p + s)"
      by (simp add: power_increasing)
    with below_bit_length [OF a0] have "a < 2 ^ (p + s)" by linarith
    then have "a < 2 ^ p * 2 ^ s" by (simp add: power_add)
    then have "a / 2 ^ s \<le> 2 ^ p" by (simp add: pos_divide_le_eq)
    then have "a / 2 ^ s \<le> real (2 ^ p)" by simp
    then have "round_half_even (a / 2 ^ s) \<le> round_half_even (real (2 ^ p))"
      by (rule round_half_even_mono)
    then have "round_half_even (a / 2 ^ s) \<le> int (2 ^ p)"
      by (simp only: round_half_even_of_nat)
    then have "real_of_int (round_half_even (a / 2 ^ s)) \<le> real_of_int (int (2 ^ p))"
      by (simp only: of_int_le_iff)
    then have "real_of_int (round_half_even (a / 2 ^ s)) \<le> 2 ^ p" by simp
    then have "real_of_int (round_half_even (a / 2 ^ s)) * 2 ^ s \<le> 2 ^ p * 2 ^ s"
      by (simp add: mult_right_mono)
    then have lo: "real_of_int (round_half_even (a / 2 ^ s)) * 2 ^ s \<le> 2 ^ (p + s)"
      by (simp add: power_add)
    from lt p have "p + s \<le> p - 1 + t" by simp
    then have "(2::real) ^ (p + s) \<le> 2 ^ (p - 1 + t)" by (simp add: power_increasing)
    with lo hi show ?thesis by linarith
  qed
  have "round_binary p e x = real_of_int (round_half_even (a / 2 ^ s)) * 2 ^ s / 2 ^ e"
    using round_binary_nonneg [OF x, of p e] by (simp add: a_def s_def)
  moreover have "round_binary p e y = real_of_int (round_half_even (b / 2 ^ t)) * 2 ^ t / 2 ^ e"
    using round_binary_nonneg [OF y, of p e] by (simp add: b_def t_def)
  ultimately show ?thesis using main by (simp add: divide_right_mono)
qed


lemma round_binary_dyadic:
  assumes q: "q \<le> e"
  shows "round_binary p e (real n / 2 ^ q) =
     of_int (round_half_even (real n / 2 ^ (bit_length n - p))) * 2 ^ (bit_length n - p) / 2 ^ q"
proof (cases "n = 0")
  case True
  then show ?thesis
    using round_half_even_of_int [of 0] by (simp add: round_binary_def Let_def bit_length_zero)
next
  case False
  define d where "d = e - q"
  from q have e: "e = q + d" by (simp add: d_def)
  have a: "real n / 2 ^ q * 2 ^ e = real (n * 2 ^ d)" by (simp add: e power_add)
  have fl: "nat \<lfloor>real (n * 2 ^ d)\<rfloor> = n * 2 ^ d" by (simp only: floor_of_nat nat_int)
  have bl: "bit_length (n * 2 ^ d) = bit_length n + d" using False by (rule bit_length_shift)
  have nn: "0 \<le> real n / 2 ^ q" by simp
  have r: "round_binary p e (real n / 2 ^ q) =
     of_int (round_half_even (real (n * 2 ^ d) / 2 ^ (bit_length n + d - p)))
       * 2 ^ (bit_length n + d - p) / 2 ^ e"
    unfolding round_binary_nonneg [OF nn] a fl bl ..
  show ?thesis
  proof (cases "p \<le> bit_length n")
    case True
    then have s: "bit_length n + d - p = (bit_length n - p) + d" by simp
    have "real (n * 2 ^ d) / 2 ^ (bit_length n - p + d) = real n / 2 ^ (bit_length n - p)"
      by (simp add: power_add)
    moreover have "(2::real) ^ (bit_length n - p + d) / 2 ^ e = 2 ^ (bit_length n - p) / 2 ^ q"
      by (simp add: e power_add)
    ultimately show ?thesis unfolding r s
      by (metis times_divide_eq_right)
  next
    case False
    then have t: "bit_length n - p = 0" by simp
    define s where "s = bit_length n + d - p"
    from False have sd: "s \<le> d" by (simp add: s_def)
    then have d: "d = s + (d - s)" by simp
    have "real (n * 2 ^ d) / 2 ^ s = real (n * 2 ^ (d - s))"
      by (subst d) (simp add: power_add)
    then have "round_half_even (real (n * 2 ^ d) / 2 ^ s) = int (n * 2 ^ (d - s))"
      by (simp only: round_half_even_of_nat)
    then have "real_of_int (round_half_even (real (n * 2 ^ d) / 2 ^ s)) * 2 ^ s
        = real (n * 2 ^ (d - s)) * 2 ^ s"
      by simp
    also have "\<dots> = real n * 2 ^ d" by (subst (2) d) (simp add: power_add)
    finally have "real_of_int (round_half_even (real (n * 2 ^ d) / 2 ^ s)) * 2 ^ s / 2 ^ e
        = real n * 2 ^ d / 2 ^ e"
      by simp
    also have "\<dots> = real n / 2 ^ q" by (simp add: e power_add)
    finally show ?thesis
      unfolding r s_def [symmetric] t using round_half_even_of_nat [of n] by simp
  qed
qed

lemma round_binary_below_one:
  assumes p: "1 \<le> p" and pe: "p \<le> e" and r0: "0 \<le> r" and r1: "r < 1"
    and same: "round_binary p e r = r"
  shows "r \<le> 1 - 1 / 2 ^ p"
proof (rule ccontr)
  assume "\<not> r \<le> 1 - 1 / 2 ^ p"
  then have big: "1 - 1 / 2 ^ p < r" by simp
  define a where "a = r * 2 ^ e"
  define d where "d = e - p"
  from pe have e: "e = p + d" by (simp add: d_def)
  from p pe have "0 < e" by simp
  then obtain e' where e': "e = Suc e'" using gr0_implies_Suc by blast
  from r0 have a0: "0 \<le> a" by (simp add: a_def)
  have "(1 - 1 / 2 ^ p) * 2 ^ e < a" unfolding a_def using big by simp
  moreover have "(1 - 1 / 2 ^ p) * (2::real) ^ e = 2 ^ e - 2 ^ d"
    by (simp add: e power_add algebra_simps)
  ultimately have lo: "2 ^ e - 2 ^ d < a" by simp
  have hi: "a < 2 ^ e" unfolding a_def using r1 by simp
  from p e e' have "d \<le> e'" by simp
  then have pw: "(2::real) ^ d \<le> 2 ^ e'" by (simp add: power_increasing)
  have "(2::real) ^ e = 2 * 2 ^ e'" by (simp add: e')
  with lo pw have "(2::real) ^ e' \<le> a" by linarith
  then have "real_of_int (2 ^ e') \<le> a" by simp
  then have "(2::int) ^ e' \<le> \<lfloor>a\<rfloor>" by (simp only: le_floor_iff)
  then have b1: "2 ^ e' \<le> nat \<lfloor>a\<rfloor>" using a0 by (simp add: le_nat_iff)
  from hi have "a < real_of_int (2 ^ Suc e')" by (simp add: e')
  then have "\<lfloor>a\<rfloor> < 2 ^ Suc e'" by (simp only: floor_less_iff)
  then have b2: "nat \<lfloor>a\<rfloor> < 2 ^ Suc e'" using a0 by (simp add: nat_less_iff)
  from b1 b2 have "bit_length (nat \<lfloor>a\<rfloor>) = Suc e'" by (rule bit_length_unique)
  then have s: "bit_length (nat \<lfloor>a\<rfloor>) - p = d" by (simp add: e' [symmetric] d_def)
  have rb: "round_binary p e r = of_int (round_half_even (a / 2 ^ d)) * 2 ^ d / 2 ^ e"
    using round_binary_nonneg [OF r0, of p e] by (simp add: a_def [symmetric] s)
  have "(2 ^ e - 2 ^ d) / 2 ^ d < a / 2 ^ d" using lo by (simp add: divide_strict_right_mono)
  moreover have "((2::real) ^ e - 2 ^ d) / 2 ^ d = 2 ^ p - 1"
    by (simp add: e power_add diff_divide_distrib)
  ultimately have zlo: "2 ^ p - 1 < a / 2 ^ d" by simp
  have "a / 2 ^ d < 2 ^ e / 2 ^ d" using hi by (simp add: divide_strict_right_mono)
  then have zhi: "a / 2 ^ d < 2 ^ p" by (simp add: e power_add)
  have "\<lfloor>a / 2 ^ d\<rfloor> = 2 ^ p - 1"
  proof (rule floor_unique)
    show "real_of_int (2 ^ p - 1) \<le> a / 2 ^ d" using zlo by simp
    show "a / 2 ^ d < real_of_int (2 ^ p - 1) + 1" using zhi by simp
  qed
  with round_half_even_cases [of "a / 2 ^ d"]
  have "round_half_even (a / 2 ^ d) = 2 ^ p - 1 \<or> round_half_even (a / 2 ^ d) = 2 ^ p"
    by simp
  then show False
  proof
    assume "round_half_even (a / 2 ^ d) = 2 ^ p - 1"
    with rb have "round_binary p e r = (2 ^ p - 1) * 2 ^ d / 2 ^ e" by simp
    also have "\<dots> = 1 - 1 / 2 ^ p" by (simp add: e power_add diff_divide_distrib)
    finally show False using same big by simp
  next
    assume "round_half_even (a / 2 ^ d) = 2 ^ p"
    with rb have "round_binary p e r = 2 ^ p * 2 ^ d / 2 ^ e" by simp
    also have "\<dots> = 1" by (simp add: e power_add)
    finally show False using same r1 by simp
  qed
qed

subsection \<open>Doubles and the arithmetic of the reference\<close>

lemma to_double_mono: "0 \<le> x \<Longrightarrow> x \<le> y \<Longrightarrow> to_double x \<le> to_double y"
  unfolding to_double_def by (rule round_binary_mono) simp_all

lemma to_double_dyadic:
  assumes "q \<le> 1074"
  shows "to_double (real n / 2 ^ q) =
     of_int (round_half_even (real n / 2 ^ (bit_length n - 53))) * 2 ^ (bit_length n - 53) / 2 ^ q"
  unfolding to_double_def using assms by (rule round_binary_dyadic)

lemma to_double_exact:
  assumes "q \<le> 1074" and "n < 2 ^ 53"
  shows "to_double (real n / 2 ^ q) = real n / 2 ^ q"
proof -
  from assms(2) have "bit_length n \<le> 53" by (rule bit_length_le)
  then have "bit_length n - 53 = 0" by simp
  then show ?thesis
    using to_double_dyadic [OF assms(1), of n] round_half_even_of_nat [of n] by simp
qed

lemma to_double_nat:
  assumes "n < 2 ^ 53"
  shows "to_double (real n) = real n"
  using to_double_exact [of 0 n] assms by simp

lemma double_below_one:
  assumes "to_double r = r" and "0 \<le> r" and "r < 1"
  shows "r \<le> 1 - 1 / 2 ^ 53"
  using assms unfolding to_double_def by (intro round_binary_below_one [of 53 1074]) simp_all

lemma largest_product:
  "to_double ((1 - 1 / 2 ^ 53) * 900000000000) = 7372799999999999 / 2 ^ 13"
proof -
  let ?n = "8106479329266891900000000000 :: nat"
  have v: "(1 - 1 / 2 ^ 53) * 900000000000 = real ?n / 2 ^ 53" by simp
  have "2 ^ 92 \<le> ?n" "?n < 2 ^ Suc 92" by simp_all
  then have "bit_length ?n = Suc 92" by (rule bit_length_unique)
  then have s: "bit_length ?n - 53 = 40" by simp
  have "round_half_even (real ?n / 2 ^ 40) = 7372799999999999"
    by (rule round_half_even_down) simp_all
  then show ?thesis
    unfolding v using to_double_dyadic [of 53 ?n] by (simp add: s)
qed

lemma utr_number_range:
  assumes d: "to_double r = r" and r0: "0 \<le> r" and r1: "r < 1"
  shows "100000000000 \<le> utr_number r" and "utr_number r \<le> 999999999999"
proof -
  let ?p = "to_double (r * 900000000000)"
  have z: "to_double 0 = 0" using to_double_nat [of 0] by simp
  from r0 have "0 \<le> r * 900000000000" by simp
  with to_double_mono [of 0 "r * 900000000000"] z have p0: "0 \<le> ?p" by simp
  from double_below_one [OF d r0 r1]
  have "r * 900000000000 \<le> (1 - 1 / 2 ^ 53) * 900000000000" by (simp only: mult_right_mono)
  with r0 have "?p \<le> to_double ((1 - 1 / 2 ^ 53) * 900000000000)"
    by (intro to_double_mono) simp_all
  then have p1: "?p \<le> 7372799999999999 / 2 ^ 13" by (simp only: largest_product)
  have lo: "to_double (real 100000000000) = real 100000000000"
    by (rule to_double_nat) simp
  have "to_double (real 100000000000) \<le> to_double (100000000000 + ?p)"
    using p0 by (intro to_double_mono) simp_all
  with lo have "100000000000 \<le> to_double (100000000000 + ?p)" by simp
  then show "100000000000 \<le> utr_number r"
    unfolding utr_number_def by (simp add: le_floor_iff)
  have hi: "to_double (real 8191999999999999 / 2 ^ 13) = real 8191999999999999 / 2 ^ 13"
    by (rule to_double_exact) simp_all
  from p1 have "100000000000 + ?p \<le> real 8191999999999999 / 2 ^ 13" by simp
  with p0 have "to_double (100000000000 + ?p) \<le> to_double (real 8191999999999999 / 2 ^ 13)"
    by (intro to_double_mono) simp_all
  with hi have "to_double (100000000000 + ?p) < 1000000000000" by simp
  then have "utr_number r < 1000000000000"
    unfolding utr_number_def by (simp add: floor_less_iff)
  then show "utr_number r \<le> 999999999999" by simp
qed

lemma utr_number_half: "utr_number (1 / 2) = 550000000000"
proof -
  have "to_double (real 450000000000) = real 450000000000" by (rule to_double_nat) simp
  moreover have "to_double (real 550000000000) = real 550000000000" by (rule to_double_nat) simp
  ultimately show ?thesis by (simp add: utr_number_def)
qed

lemma double_half: "to_double (1 / 2) = 1 / 2"
  using to_double_exact [of 1 1] by simp

lemma utr_number_rounded_up:
  "utr_number (6794155061564289 / 2 ^ 53) = 778872464400"
  "\<lfloor>100000000000 + 6794155061564289 / 2 ^ 53 * (900000000000::real)\<rfloor> = 778872464399"
proof -
  let ?n = "6114739555407860100000000000 :: nat"
  have v: "6794155061564289 / 2 ^ 53 * 900000000000 = real ?n / 2 ^ 53" by simp
  have "2 ^ 92 \<le> ?n" "?n < 2 ^ Suc 92" by simp_all
  then have "bit_length ?n = Suc 92" by (rule bit_length_unique)
  then have s: "bit_length ?n - 53 = 40" by simp
  have "round_half_even (real ?n / 2 ^ 40) = 5561323228364800"
    by (rule round_half_even_up) simp_all
  then have p: "to_double (6794155061564289 / 2 ^ 53 * 900000000000) = 678872464400"
    unfolding v using to_double_dyadic [of 53 ?n] by (simp add: s)
  have e: "to_double (real 778872464400) = real 778872464400" by (rule to_double_nat) simp
  have "utr_number (6794155061564289 / 2 ^ 53) = \<lfloor>to_double (100000000000 + 678872464400)\<rfloor>"
    unfolding utr_number_def p ..
  with e show "utr_number (6794155061564289 / 2 ^ 53) = 778872464400" by simp
  show "\<lfloor>100000000000 + 6794155061564289 / 2 ^ 53 * (900000000000::real)\<rfloor> = 778872464399"
    by (rule floor_unique) simp_all
qed

section \<open>The settlement reference has twelve digits\<close>

lemma digit_chars_decimal:
  assumes "d < 10"
  shows "digit_value (digit_chars ! d) = Some d"
proof -
  from assms have "d = 0 \<or> d = 1 \<or> d = 2 \<or> d = 3 \<or> d = 4 \<or> d = 5 \<or> d = 6 \<or> d = 7 \<or> d = 8 \<or> d = 9"
    by arith
  then show ?thesis
    by (elim disjE) (simp_all add: digit_chars_def digit_value_def upt_conv_Cons)
qed

lemma digit_value_member: "digit_value c = Some d \<Longrightarrow> c \<in> set ''0123456789''"
proof -
  assume "digit_value c = Some d"
  then have "(c, d) \<in> set (zip ''0123456789'' [0 ..< 10])"
    unfolding digit_value_def by (rule map_of_SomeD)
  then show ?thesis by (rule set_zip_leftD)
qed

lemma decimal_value_snoc:
  "decimal_value acc (cs @ [c]) =
     (case decimal_value acc cs of
        None \<Rightarrow> None
      | Some v \<Rightarrow> (case digit_value c of None \<Rightarrow> None | Some d \<Rightarrow> Some (10 * v + d)))"
  by (induction cs arbitrary: acc) (auto split: option.splits)

lemma decimal_value_digits: "decimal_value 0 (digits_radix 10 n) = Some n"
proof (induction "10::nat" n rule: digits_radix.induct)
  case (1 n)
  show ?case
  proof (cases "n < 10")
    case True
    then show ?thesis
      by (simp add: digits_radix.simps [of 10 n] digit_chars_decimal)
  next
    case False
    with 1 have "decimal_value 0 (digits_radix 10 (n div 10)) = Some (n div 10)" by simp
    with False show ?thesis
      by (simp add: digits_radix.simps [of 10 n] decimal_value_snoc digit_chars_decimal)
  qed
qed

lemma digits_radix_decimal_chars: "set (digits_radix 10 n) \<subseteq> set ''0123456789''"
proof (induction "10::nat" n rule: digits_radix.induct)
  case (1 n)
  have d: "digit_chars ! (n mod 10) \<in> set ''0123456789''"
    using digit_chars_decimal [of "n mod 10"] digit_value_member by simp
  show ?case
  proof (cases "n < 10")
    case True
    with d show ?thesis by (simp add: digits_radix.simps [of 10 n])
  next
    case False
    with 1 have "set (digits_radix 10 (n div 10)) \<subseteq> set ''0123456789''" by simp
    with False d show ?thesis by (simp add: digits_radix.simps [of 10 n])
  qed
qed

lemma digits_radix_length:
  "10 ^ k \<le> n \<Longrightarrow> n < 10 ^ Suc k \<Longrightarrow> length (digits_radix 10 n) = Suc k"
proof (induction k arbitrary: n)
  case 0
  then show ?case by (simp add: digits_radix.simps [of 10 n])
next
  case (Suc k)
  define m :: nat where "m = 10 ^ k"
  have m: "1 \<le> m" by (simp add: m_def)
  from Suc.prems have lo: "10 * m \<le> n" and hi: "n < 10 * (10 * m)"
    by (simp_all add: m_def)
  from m lo have big: "\<not> n < 10" by arith
  from lo hi have "m \<le> n div 10" "n div 10 < 10 * m" by arith+
  then have "10 ^ k \<le> n div 10" "n div 10 < 10 ^ Suc k" by (simp_all add: m_def)
  then have "length (digits_radix 10 (n div 10)) = Suc k" by (rule Suc.IH)
  with big show ?case by (simp add: digits_radix.simps [of 10 n])
qed

text \<open>
  Claim C9. For every draw \<open>r\<close> that \<^verbatim>\<open>Math.random()\<close> can return, a double in \<open>[0, 1)\<close>,
  \<^verbatim>\<open>generateUTRId\<close> returns a string of exactly twelve characters, all of them decimal
  digits, and the integer the string denotes, the floor of the rounded sum, lies in the
  closed range from 100000000000 to 999999999999.
\<close>

theorem generateUTRId_twelve_digits:
  assumes "to_double r = r" and "0 \<le> r" and "r < 1"
  shows "length (generateUTRId r) = 12
    \<and> set (generateUTRId r) \<subseteq> set ''0123456789''
    \<and> numeric_string (generateUTRId r) = Some (nat (utr_number r))
    \<and> 100000000000 \<le> utr_number r \<and> utr_number r \<le> 999999999999"
proof -
  let ?n = "nat (utr_number r)"
  note rng = utr_number_range [OF assms]
  from rng have g: "generateUTRId r = digits_radix 10 ?n"
    by (simp add: generateUTRId_def number_toString_def)
  from rng have "10 ^ 11 \<le> ?n" "?n < 10 ^ Suc 11" by simp_all
  then have len: "length (digits_radix 10 ?n) = Suc 11" by (rule digits_radix_length)
  then have ne: "digits_radix 10 ?n \<noteq> []" by auto
  have chars: "set (generateUTRId r) \<subseteq> set ''0123456789''"
    unfolding g by (rule digits_radix_decimal_chars)
  have val: "numeric_string (generateUTRId r) = Some ?n"
    using ne by (simp add: g numeric_string_def decimal_value_digits)
  from len have "length (generateUTRId r) = 12" by (simp add: g)
  with chars val rng show ?thesis by blast
qed

theorem generateUTRId_twelve_digits_witness:
  "to_double (1 / 2) = 1 / 2 \<and> (0::real) \<le> 1 / 2 \<and> (1::real) / 2 < 1
    \<and> generateUTRId (1 / 2) = ''550000000000''
    \<and> length (generateUTRId (1 / 2)) = 12
    \<and> numeric_string (generateUTRId (1 / 2)) = Some 550000000000"
proof -
  note v = utr_number_half
  have s: "generateUTRId (1 / 2) = ''550000000000''"
    by (simp add: generateUTRId_def v number_toString_def digits_radix.simps digit_chars_def)
  show ?thesis
    using generateUTRId_twelve_digits [OF double_half] double_half by (simp add: v s)
qed

text \<open>
  A draw at which the rounding shows: the exact sum lies just below 778872464400, the
  rounded product and sum reach it, and the reference is the one the code returns.
\<close>

lemma generateUTRId_rounded_up:
  "generateUTRId (6794155061564289 / 2 ^ 53) = ''778872464400''"
proof -
  have "generateUTRId (6794155061564289 / 2 ^ 53) = number_toString 10 778872464400"
    unfolding generateUTRId_def utr_number_rounded_up(1) ..
  then show ?thesis
    by (simp add: number_toString_def digits_radix.simps digit_chars_def)
qed

section \<open>The run, evaluated\<close>

lemma generateUTRId_half: "generateUTRId (1 / 2) = ''550000000000''"
  by (simp add: generateUTRId_def utr_number_half number_toString_def digits_radix.simps
      digit_chars_def)

lemma run_id_generated: "generateTransactionId 1700000000000 [0xAB, 0xCD] = run_id"
  by (simp add: generateTransactionId_def number_toString_def digits_radix.simps digit_chars_def
      toUpperCase_def upper_char_def buffer_toHex_def hex_byte_def run_id_def)

lemma run_pending_state: "run_pending = \<lparr>db = [run_document], timers = [run_id]\<rparr>"
  by (simp add: run_pending_def create_transaction_def run_create_env_def run_body_def
      run_id_generated save_def run_document_def run_id_def Let_def)

lemma run_succeeded_state:
  "run_succeeded =
     \<lparr>db = [run_document\<lparr>status := ''success'', utrId := Some ''550000000000'',
             paymentDate := Some 1700000003000\<rparr>], timers = []\<rparr>"
  by (simp add: run_succeeded_def fire_timer_def resolve_def run_success_env_def run_pending_state
      run_document_def run_id_def generateUTRId_half Let_def)

lemma run_failed_state:
  "run_failed = \<lparr>db = [run_document\<lparr>status := ''failed''\<rparr>], timers = []\<rparr>"
  by (simp add: run_failed_def fire_timer_def resolve_def run_failure_env_def run_pending_state
      run_document_def run_id_def Let_def)

lemma reachable_run_pending: "reachable run_pending"
  unfolding run_pending_def by (rule reachable.request) (rule reachable.start)

lemma reachable_run_succeeded: "reachable run_succeeded"
  unfolding run_succeeded_def
  by (rule reachable.timeout [OF reachable_run_pending])
     (simp_all add: run_pending_state run_success_env_def)

lemma reachable_run_failed: "reachable run_failed"
  unfolding run_failed_def
  by (rule reachable.timeout [OF reachable_run_pending])
     (simp_all add: run_pending_state run_failure_env_def)


lemma three_documents_sorted:
  "sort_newest_first three_documents =
     [run_document\<lparr>transactionId := ''TXNB'', date := 3, status := ''success'',
        utrId := Some ''550000000000'', paymentDate := Some 4\<rparr>,
      run_document\<lparr>transactionId := ''TXNC'', date := 2\<rparr>,
      run_document\<lparr>transactionId := ''TXNA'', date := 1\<rparr>]"
  by (simp add: sort_newest_first_def three_documents_def run_document_def)

section \<open>Updating one document\<close>

lemma findOneAndUpdate_length: "length (findOneAndUpdate c u ts) = length ts"
  by (induction ts) simp_all

lemma findOneAndUpdate_ids:
  assumes "\<And>t. transactionId (u t) = transactionId t"
  shows "map transactionId (findOneAndUpdate c u ts) = map transactionId ts"
  using assms by (induction ts) simp_all

lemma findOneAndUpdate_members:
  assumes "distinct (map transactionId ts)"
    and "t' \<in> set (findOneAndUpdate (\<lambda>t. transactionId t = tid) u ts)"
  shows "(transactionId t' \<noteq> tid \<and> t' \<in> set ts) \<or> (\<exists>t \<in> set ts. transactionId t = tid \<and> t' = u t)"
  using assms
proof (induction ts)
  case Nil
  then show ?case by simp
next
  case (Cons a ts)
  show ?case
  proof (cases "transactionId a = tid")
    case True
    with Cons.prems have "t' = u a \<or> t' \<in> set ts" by simp
    then show ?thesis
    proof
      assume "t' = u a"
      with True show ?thesis by auto
    next
      assume m: "t' \<in> set ts"
      then have "transactionId t' \<in> set (map transactionId ts)" by simp
      with Cons.prems(1) True have "transactionId t' \<noteq> tid" by auto
      with m show ?thesis by simp
    qed
  next
    case False
    with Cons.prems have "t' = a \<or> t' \<in> set (findOneAndUpdate (\<lambda>t. transactionId t = tid) u ts)"
      by simp
    then show ?thesis
    proof
      assume "t' = a"
      with False show ?thesis by simp
    next
      assume "t' \<in> set (findOneAndUpdate (\<lambda>t. transactionId t = tid) u ts)"
      with Cons.IH Cons.prems(1) show ?thesis by auto
    qed
  qed
qed

section \<open>The invariant holds in every state\<close>

lemma consistent_fewer_timers:
  "consistent waiting t \<Longrightarrow> set waiting' \<subseteq> set waiting \<Longrightarrow> consistent waiting' t"
  unfolding consistent_def by (auto split: if_splits)

lemma consistent_waiting_pending:
  "consistent waiting t \<Longrightarrow> transactionId t \<in> set waiting \<Longrightarrow>
     status t = ''pending'' \<and> utrId t = None \<and> paymentDate t = None"
  unfolding consistent_def by (auto split: if_splits)

lemma server_inv_start: "server_inv \<lparr>db = [], timers = []\<rparr>"
  by (simp add: server_inv_def)

lemma server_inv_create:
  assumes "server_inv s"
  shows "server_inv (snd (create_transaction env body s))"
proof (cases "falsy (body_amount body) \<or> le_zero (body_amount body)")
  case True
  with assms show ?thesis by (simp add: create_transaction_def)
next
  case False
  show ?thesis
  proof (cases "cast_number (body_amount body)")
    case None
    with False assms show ?thesis by (simp add: create_transaction_def Let_def)
  next
    case (Some a)
    define tid where "tid = generateTransactionId (id_clock env) (id_bytes env)"
    define doc where "doc =
      \<lparr>transactionId = tid, utrId = None, amount = a,
       description = or_default (body_description body) ''Payment'',
       status = ''pending'',
       upiId = or_default (body_upiId body) ''8618505915@fam'',
       date = doc_clock env, paymentDate = None\<rparr>"
    show ?thesis
    proof (cases "save (save_up env) doc (db s)")
      case (Inl e)
      with False Some assms show ?thesis
        by (simp add: create_transaction_def Let_def tid_def doc_def)
    next
      case (Inr db')
      then have fresh: "tid \<notin> set (map transactionId (db s))" and db': "db' = db s @ [doc]"
        by (auto simp: save_def doc_def split: if_splits)
      have st: "snd (create_transaction env body s) = s\<lparr>db := db', timers := timers s @ [tid]\<rparr>"
        using False Some Inr by (simp add: create_transaction_def Let_def tid_def doc_def)
      from assms have d: "distinct (map transactionId (db s))" and dt: "distinct (timers s)"
        and sub: "set (timers s) \<subseteq> set (map transactionId (db s))"
        and con: "list_all (consistent (timers s)) (db s)"
        by (simp_all add: server_inv_def)
      have id: "transactionId doc = tid" by (simp add: doc_def)
      from fresh sub have nt: "tid \<notin> set (timers s)" by auto
      have c1: "consistent (timers s @ [tid]) doc"
        by (simp add: consistent_def doc_def)
      have c2: "list_all (consistent (timers s @ [tid])) (db s)"
        unfolding list_all_iff
      proof
        fix t assume t: "t \<in> set (db s)"
        with con have c: "consistent (timers s) t" by (simp add: list_all_iff)
        from t fresh have "transactionId t \<noteq> tid" by auto
        with c show "consistent (timers s @ [tid]) t"
          unfolding consistent_def by (auto split: if_splits)
      qed
      show ?thesis
        unfolding st server_inv_def using d dt sub fresh nt c1 c2
        by (auto simp: db' id)
    qed
  qed
qed

lemma server_inv_update:
  assumes inv: "server_inv s" and tid: "tid \<in> set (timers s)"
    and ids: "\<And>t. transactionId (u t) = transactionId t"
    and settled: "\<And>t. status t = ''pending'' \<Longrightarrow> utrId t = None \<Longrightarrow> paymentDate t = None \<Longrightarrow>
      consistent (remove1 (transactionId t) (timers s)) (u t)"
  shows "server_inv (s\<lparr>db := findOneAndUpdate (\<lambda>t. transactionId t = tid) u (db s),
    timers := remove1 tid (timers s)\<rparr>)"
proof -
  from inv have d: "distinct (map transactionId (db s))" and dt: "distinct (timers s)"
    and sub: "set (timers s) \<subseteq> set (map transactionId (db s))"
    and con: "list_all (consistent (timers s)) (db s)"
    by (simp_all add: server_inv_def)
  let ?db = "findOneAndUpdate (\<lambda>t. transactionId t = tid) u (db s)"
  have m: "map transactionId ?db = map transactionId (db s)"
    using ids by (rule findOneAndUpdate_ids)
  have "list_all (consistent (remove1 tid (timers s))) ?db"
    unfolding list_all_iff
  proof
    fix t' assume "t' \<in> set ?db"
    with d have "(transactionId t' \<noteq> tid \<and> t' \<in> set (db s))
        \<or> (\<exists>t \<in> set (db s). transactionId t = tid \<and> t' = u t)"
      by (rule findOneAndUpdate_members)
    then show "consistent (remove1 tid (timers s)) t'"
    proof
      assume "transactionId t' \<noteq> tid \<and> t' \<in> set (db s)"
      with con have "consistent (timers s) t'" by (simp add: list_all_iff)
      then show ?thesis by (rule consistent_fewer_timers) (rule set_remove1_subset)
    next
      assume "\<exists>t \<in> set (db s). transactionId t = tid \<and> t' = u t"
      then obtain t where t: "t \<in> set (db s)" "transactionId t = tid" "t' = u t" by blast
      from con t(1) have "consistent (timers s) t" by (simp add: list_all_iff)
      with tid t(2) have "status t = ''pending'' \<and> utrId t = None \<and> paymentDate t = None"
        by (simp add: consistent_waiting_pending)
      with settled [of t] t(2,3) show ?thesis by simp
    qed
  qed
  moreover have "set (remove1 tid (timers s)) \<subseteq> set (timers s)" by (rule set_remove1_subset)
  ultimately show ?thesis
    using d dt sub by (auto simp: server_inv_def m)
qed

lemma server_inv_fire:
  assumes inv: "server_inv s" and tid: "tid \<in> set (timers s)"
  shows "server_inv (fire_timer env tid s)"
proof (cases "update_up env")
  case False
  from inv have d: "distinct (map transactionId (db s))" and dt: "distinct (timers s)"
    and sub: "set (timers s) \<subseteq> set (map transactionId (db s))"
    and con: "list_all (consistent (timers s)) (db s)"
    by (simp_all add: server_inv_def)
  have r: "set (remove1 tid (timers s)) \<subseteq> set (timers s)" by (rule set_remove1_subset)
  have "list_all (consistent (remove1 tid (timers s))) (db s)"
    using con r unfolding list_all_iff by (blast intro: consistent_fewer_timers)
  with False d dt sub r show ?thesis
    by (auto simp: fire_timer_def resolve_def server_inv_def)
next
  case True
  from inv have dt: "distinct (timers s)" by (simp add: server_inv_def)
  show ?thesis
  proof (cases "outcome_draw env > 0.1")
    case win: True
    have "server_inv (s\<lparr>db := findOneAndUpdate (\<lambda>t. transactionId t = tid)
        (\<lambda>t. t\<lparr>status := ''success'', utrId := Some (generateUTRId (utr_draw env)),
                paymentDate := Some (resolve_clock env)\<rparr>) (db s),
        timers := remove1 tid (timers s)\<rparr>)"
      using inv tid by (rule server_inv_update) (simp_all add: consistent_def dt)
    with True win show ?thesis by (simp add: fire_timer_def resolve_def)
  next
    case lose: False
    have "server_inv (s\<lparr>db := findOneAndUpdate (\<lambda>t. transactionId t = tid)
        (\<lambda>t. t\<lparr>status := ''failed''\<rparr>) (db s),
        timers := remove1 tid (timers s)\<rparr>)"
      using inv tid by (rule server_inv_update) (simp_all add: consistent_def dt)
    with True lose show ?thesis by (simp add: fire_timer_def resolve_def)
  qed
qed

lemma reachable_server_inv: "reachable s \<Longrightarrow> server_inv s"
proof (induction rule: reachable.induct)
  case start
  show ?case by (rule server_inv_start)
next
  case (request s env body)
  then show ?case by (simp add: server_inv_create)
next
  case (timeout s tid env)
  then show ?case by (simp add: server_inv_fire)
qed

lemma reachable_consistent:
  assumes "reachable s" and "t \<in> set (db s)"
  shows "consistent (timers s) t"
  using reachable_server_inv [OF assms(1)] assms(2) by (simp add: server_inv_def list_all_iff)

section \<open>Claims about creation, the references and the counts\<close>

text \<open>
  Claim C3. A request whose amount is missing, \<^verbatim>\<open>null\<close>, zero or negative is answered with
  status 400 and the message \<^verbatim>\<open>Invalid amount\<close>, and the server is left as it was: no
  document is inserted and no timer is scheduled.
\<close>

theorem create_invalid_amount:
  assumes "body_amount body = Undefined \<or> body_amount body = Null
    \<or> (\<exists>x. body_amount body = Number x \<and> x \<le> 0)"
  shows "create_transaction env body s = (Failure 400 ''Invalid amount'', s)"
  using assms by (auto simp: create_transaction_def)

theorem create_invalid_amount_witness:
  "body_amount (run_body\<lparr>body_amount := Number (- 5)\<rparr>) = Number (- 5) \<and> (- 5 :: real) \<le> 0
   \<and> create_transaction run_create_env (run_body\<lparr>body_amount := Number (- 5)\<rparr>) run_pending
     = (Failure 400 ''Invalid amount'', run_pending)
   \<and> create_transaction run_create_env (run_body\<lparr>body_amount := Undefined\<rparr>) run_pending
     = (Failure 400 ''Invalid amount'', run_pending)
   \<and> db run_pending = [run_document] \<and> timers run_pending = [run_id]"
  using create_invalid_amount [of "run_body\<lparr>body_amount := Number (- 5)\<rparr>" run_create_env run_pending]
    create_invalid_amount [of "run_body\<lparr>body_amount := Undefined\<rparr>" run_create_env run_pending]
  by (simp add: run_pending_state)

text \<open>
  Claim C4. In every state of the server, a stored transaction has a settlement reference
  (\<^verbatim>\<open>utrId\<close> is not \<^verbatim>\<open>null\<close>) if and only if its status is \<^verbatim>\<open>success\<close>: the reference is
  \<^verbatim>\<open>null\<close> while the transaction is pending and after it has failed.
\<close>

theorem utrId_iff_success:
  assumes "reachable s" and "t \<in> set (db s)"
  shows "(utrId t \<noteq> None) = (status t = ''success'')"
  using reachable_consistent [OF assms] unfolding consistent_def by (auto split: if_splits)

theorem utrId_iff_success_witness:
  "reachable run_succeeded
   \<and> db run_succeeded = [run_document\<lparr>status := ''success'', utrId := Some ''550000000000'',
             paymentDate := Some 1700000003000\<rparr>]
   \<and> (utrId (hd (db run_succeeded)) \<noteq> None) = (status (hd (db run_succeeded)) = ''success'')
   \<and> status (hd (db run_succeeded)) = ''success''"
  using utrId_iff_success [of run_succeeded "hd (db run_succeeded)"] reachable_run_succeeded
  by (simp add: run_succeeded_state)

text \<open>
  Claim C1, as stated, fails: after the run whose draw is 0.05 the only document has
  status \<^verbatim>\<open>failed\<close> and its \<^verbatim>\<open>paymentDate\<close> is still \<^verbatim>\<open>null\<close>, since the update of the
  failure branch is \<^verbatim>\<open>{ status: 'failed' }\<close> alone.
\<close>

theorem failed_without_paymentDate:
  "reachable run_failed \<and> db run_failed = [run_document\<lparr>status := ''failed''\<rparr>]
   \<and> status (run_document\<lparr>status := ''failed''\<rparr>) = ''failed''
   \<and> paymentDate (run_document\<lparr>status := ''failed''\<rparr>) = None
   \<and> \<not> ((paymentDate (run_document\<lparr>status := ''failed''\<rparr>) \<noteq> None)
         = (status (run_document\<lparr>status := ''failed''\<rparr>) \<noteq> ''pending''))"
  using reachable_run_failed by (simp add: run_failed_state run_document_def)

text \<open>
  Claim C1, amended. In every state of the server, a stored transaction has a payment date
  (\<^verbatim>\<open>paymentDate\<close> is not \<^verbatim>\<open>null\<close>) if and only if its status is \<^verbatim>\<open>success\<close>; a pending and
  a failed transaction have none.
\<close>

theorem paymentDate_iff_success:
  assumes "reachable s" and "t \<in> set (db s)"
  shows "(paymentDate t \<noteq> None) = (status t = ''success'')"
  using reachable_consistent [OF assms] unfolding consistent_def by (auto split: if_splits)

theorem paymentDate_iff_success_witness:
  "reachable run_failed \<and> db run_failed = [run_document\<lparr>status := ''failed''\<rparr>]
   \<and> (paymentDate (hd (db run_failed)) \<noteq> None) = (status (hd (db run_failed)) = ''success'')
   \<and> paymentDate (hd (db run_failed)) = None"
  using paymentDate_iff_success [of run_failed "hd (db run_failed)"] reachable_run_failed
  by (simp add: run_failed_state run_document_def)

lemma count_three_statuses:
  assumes "\<forall>t \<in> set ts. status t = ''success'' \<or> status t = ''pending'' \<or> status t = ''failed''"
  shows "countDocuments (\<lambda>t. True) ts =
     countDocuments (\<lambda>t. status t = ''success'') ts
     + countDocuments (\<lambda>t. status t = ''pending'') ts
     + countDocuments (\<lambda>t. status t = ''failed'') ts"
  using assms
proof (induction ts)
  case Nil
  show ?case by (simp add: countDocuments_def)
next
  case (Cons a ts)
  then have ih: "length ts = length (filter (\<lambda>t. status t = ''success'') ts)
     + length (filter (\<lambda>t. status t = ''pending'') ts)
     + length (filter (\<lambda>t. status t = ''failed'') ts)"
    by (simp add: countDocuments_def)
  from Cons.prems have "status a = ''success'' \<or> status a = ''pending'' \<or> status a = ''failed''"
    by simp
  then show ?case
    using ih by (elim disjE) (simp_all add: countDocuments_def)
qed

lemma reachable_status_enum:
  assumes "reachable s" and "t \<in> set (db s)"
  shows "status t = ''success'' \<or> status t = ''pending'' \<or> status t = ''failed''"
  using reachable_consistent [OF assms] unfolding consistent_def by (auto split: if_splits)

text \<open>
  Claim C8. In every state of the server, the counts of \<^verbatim>\<open>GET /api/stats\<close>, all taken on
  the same collection, satisfy total = successful + pending + failed, because every stored
  status is one of \<^verbatim>\<open>success\<close>, \<^verbatim>\<open>pending\<close> and \<^verbatim>\<open>failed\<close>.
\<close>

theorem stats_total_is_sum:
  assumes "reachable s" and "get_stats up (db s) = Reply code r"
  shows "totalTransactions r
    = successfulTransactions r + pendingTransactions r + failedTransactions r"
proof -
  have "\<forall>t \<in> set (db s). status t = ''success'' \<or> status t = ''pending'' \<or> status t = ''failed''"
    by (intro ballI) (rule reachable_status_enum [OF assms(1)])
  then have c: "countDocuments (\<lambda>t. True) (db s) =
     countDocuments (\<lambda>t. status t = ''success'') (db s)
     + countDocuments (\<lambda>t. status t = ''pending'') (db s)
     + countDocuments (\<lambda>t. status t = ''failed'') (db s)"
    by (rule count_three_statuses)
  from assms(2) have "up" by (auto simp: get_stats_def split: if_splits)
  with assms(2) c show ?thesis
    by (auto simp: get_stats_def Let_def)
qed

theorem stats_total_is_sum_witness:
  "reachable run_succeeded
   \<and> get_stats True (db run_succeeded) = Reply 200
        \<lparr>totalTransactions = 1, successfulTransactions = 1, pendingTransactions = 0,
         failedTransactions = 0, totalAmount = 100\<rparr>
   \<and> totalTransactions \<lparr>totalTransactions = 1, successfulTransactions = 1, pendingTransactions = 0,
         failedTransactions = 0, totalAmount = 100\<rparr> = 1 + 0 + (0::nat)"
proof -
  have g: "get_stats True (db run_succeeded) = Reply 200
        \<lparr>totalTransactions = 1, successfulTransactions = 1, pendingTransactions = 0,
         failedTransactions = 0, totalAmount = 100\<rparr>"
    by (simp add: get_stats_def run_succeeded_state run_document_def countDocuments_def
        sum_amount_def Let_def)
  from stats_total_is_sum [OF reachable_run_succeeded g] reachable_run_succeeded g
  show ?thesis by simp
qed

section \<open>What a resolution leaves alone\<close>

lemma findOneAndUpdate_frame:
  assumes "i < length ts"
  shows "(\<not> c (ts ! i) \<or> (\<exists>j<i. c (ts ! j)) \<longrightarrow> findOneAndUpdate c u ts ! i = ts ! i)
    \<and> (findOneAndUpdate c u ts ! i = ts ! i \<or> findOneAndUpdate c u ts ! i = u (ts ! i))"
  using assms
proof (induction ts arbitrary: i)
  case Nil
  then show ?case by simp
next
  case (Cons a ts)
  show ?case
  proof (cases i)
    case 0
    then show ?thesis by simp
  next
    case (Suc k)
    with Cons.prems have k: "k < length ts" by simp
    note ih = Cons.IH [OF k]
    show ?thesis
    proof (cases "c a")
      case True
      with Suc show ?thesis by simp
    next
      case False
      have "(\<exists>j<Suc k. c ((a # ts) ! j)) \<longrightarrow> (\<exists>j<k. c (ts ! j))"
      proof
        assume "\<exists>j<Suc k. c ((a # ts) ! j)"
        then obtain j where j: "j < Suc k" "c ((a # ts) ! j)" by blast
        with False obtain j' where "j = Suc j'" by (cases j) auto
        with j show "\<exists>j<k. c (ts ! j)" by auto
      qed
      with False Suc ih show ?thesis by auto
    qed
  qed
qed

lemma findOne_exists:
  assumes "tid \<in> set (map transactionId ts)"
  shows "\<exists>t. findOne (\<lambda>t. transactionId t = tid) ts = Some t \<and> t \<in> set ts \<and> transactionId t = tid"
  using assms by (induction ts) auto

lemma findOne_updated:
  assumes "findOne c ts = Some t" and "c (u t)"
  shows "findOne c (findOneAndUpdate c u ts) = Some (u t)"
  using assms by (induction ts) (auto split: if_splits)

lemma update_frame:
  fixes u :: "transaction \<Rightarrow> transaction"
  assumes r: "r = findOneAndUpdate (\<lambda>t. transactionId t = tid) u ts"
    and keep: "\<And>t. transactionId (u t) = transactionId t \<and> amount (u t) = amount t
      \<and> description (u t) = description t \<and> upiId (u t) = upiId t \<and> date (u t) = date t"
    and i: "i < length ts"
  shows "transactionId (r ! i) = transactionId (ts ! i)
        \<and> amount (r ! i) = amount (ts ! i)
        \<and> description (r ! i) = description (ts ! i)
        \<and> upiId (r ! i) = upiId (ts ! i)
        \<and> date (r ! i) = date (ts ! i)
        \<and> (transactionId (ts ! i) \<noteq> tid \<or> (\<exists>j<i. transactionId (ts ! j) = tid)
             \<longrightarrow> r ! i = ts ! i)"
proof -
  note f = findOneAndUpdate_frame [OF i, of "\<lambda>t. transactionId t = tid" u, folded r]
  from f have other: "transactionId (ts ! i) \<noteq> tid \<or> (\<exists>j<i. transactionId (ts ! j) = tid)
             \<longrightarrow> r ! i = ts ! i"
    by (rule conjunct1)
  from f have "r ! i = ts ! i \<or> r ! i = u (ts ! i)" by (rule conjunct2)
  then have "transactionId (r ! i) = transactionId (ts ! i)
        \<and> amount (r ! i) = amount (ts ! i)
        \<and> description (r ! i) = description (ts ! i)
        \<and> upiId (r ! i) = upiId (ts ! i)
        \<and> date (r ! i) = date (ts ! i)"
  proof
    assume "r ! i = ts ! i"
    then show ?thesis by simp
  next
    assume "r ! i = u (ts ! i)"
    with keep [of "ts ! i"] show ?thesis by simp
  qed
  with other show ?thesis by simp
qed

lemma resolve_cases:
  "resolve env tid ts = ts
    \<or> resolve env tid ts = findOneAndUpdate (\<lambda>t. transactionId t = tid)
        (\<lambda>t. t\<lparr>status := ''success'', utrId := Some (generateUTRId (utr_draw env)),
                paymentDate := Some (resolve_clock env)\<rparr>) ts
    \<or> resolve env tid ts = findOneAndUpdate (\<lambda>t. transactionId t = tid)
        (\<lambda>t. t\<lparr>status := ''failed''\<rparr>) ts"
  by (simp add: resolve_def Let_def)

lemma resolve_length: "length (resolve env tid ts) = length ts"
  using resolve_cases [of env tid ts] by (auto simp: findOneAndUpdate_length)

lemma resolve_index_frame:
  assumes i: "i < length ts"
  shows "transactionId (resolve env tid ts ! i) = transactionId (ts ! i)
        \<and> amount (resolve env tid ts ! i) = amount (ts ! i)
        \<and> description (resolve env tid ts ! i) = description (ts ! i)
        \<and> upiId (resolve env tid ts ! i) = upiId (ts ! i)
        \<and> date (resolve env tid ts ! i) = date (ts ! i)
        \<and> (transactionId (ts ! i) \<noteq> tid \<or> (\<exists>j<i. transactionId (ts ! j) = tid)
             \<longrightarrow> resolve env tid ts ! i = ts ! i)"
  using resolve_cases [of env tid ts]
proof (elim disjE)
  assume "resolve env tid ts = ts"
  then show ?thesis by simp
next
  assume "resolve env tid ts = findOneAndUpdate (\<lambda>t. transactionId t = tid)
        (\<lambda>t. t\<lparr>status := ''success'', utrId := Some (generateUTRId (utr_draw env)),
                paymentDate := Some (resolve_clock env)\<rparr>) ts"
  then show ?thesis by (rule update_frame) (simp_all add: i)
next
  assume "resolve env tid ts = findOneAndUpdate (\<lambda>t. transactionId t = tid)
        (\<lambda>t. t\<lparr>status := ''failed''\<rparr>) ts"
  then show ?thesis by (rule update_frame) (simp_all add: i)
qed

text \<open>
  Claim C10. When a timer fires, whatever its outcome, the collection keeps its length
  and every document keeps its \<^verbatim>\<open>transactionId\<close>, \<^verbatim>\<open>amount\<close>, \<^verbatim>\<open>description\<close>, \<^verbatim>\<open>upiId\<close> and
  \<^verbatim>\<open>date\<close>; every document other than the targeted one (the first with the timer's id) is
  unchanged in every field. So only \<^verbatim>\<open>status\<close>, \<^verbatim>\<open>utrId\<close> and \<^verbatim>\<open>paymentDate\<close> of the
  targeted document can change.
\<close>

theorem resolve_frame:
  "length (db (fire_timer env tid s)) = length (db s)
   \<and> (\<forall>i < length (db s).
        transactionId (db (fire_timer env tid s) ! i) = transactionId (db s ! i)
        \<and> amount (db (fire_timer env tid s) ! i) = amount (db s ! i)
        \<and> description (db (fire_timer env tid s) ! i) = description (db s ! i)
        \<and> upiId (db (fire_timer env tid s) ! i) = upiId (db s ! i)
        \<and> date (db (fire_timer env tid s) ! i) = date (db s ! i)
        \<and> (transactionId (db s ! i) \<noteq> tid \<or> (\<exists>j<i. transactionId (db s ! j) = tid)
             \<longrightarrow> db (fire_timer env tid s) ! i = db s ! i))"
proof -
  have d: "db (fire_timer env tid s) = resolve env tid (db s)"
    by (simp add: fire_timer_def)
  show ?thesis
    unfolding d using resolve_index_frame [of _ "db s" env tid]
    by (simp add: resolve_length)
qed

theorem resolve_frame_witness:
  "db (fire_timer run_success_env run_id
         \<lparr>db = [run_document\<lparr>transactionId := ''TXNOTHER''\<rparr>, run_document], timers = [run_id]\<rparr>)
     = [run_document\<lparr>transactionId := ''TXNOTHER''\<rparr>,
        run_document\<lparr>status := ''success'', utrId := Some ''550000000000'',
             paymentDate := Some 1700000003000\<rparr>]
   \<and> amount (db (fire_timer run_success_env run_id
         \<lparr>db = [run_document\<lparr>transactionId := ''TXNOTHER''\<rparr>, run_document], timers = [run_id]\<rparr>) ! 1)
     = 100"
proof -
  let ?s = "\<lparr>db = [run_document\<lparr>transactionId := ''TXNOTHER''\<rparr>, run_document], timers = [run_id]\<rparr>"
  note u = generateUTRId_half
  have e: "db (fire_timer run_success_env run_id ?s)
     = [run_document\<lparr>transactionId := ''TXNOTHER''\<rparr>,
        run_document\<lparr>status := ''success'', utrId := Some ''550000000000'',
             paymentDate := Some 1700000003000\<rparr>]"
    by (simp add: fire_timer_def resolve_def run_success_env_def run_document_def run_id_def u)
  have "amount (db (fire_timer run_success_env run_id ?s) ! 1) = amount (db ?s ! 1)"
    using resolve_frame [of run_success_env run_id ?s] by simp
  then show ?thesis
    using e by (simp add: run_document_def)
qed

section \<open>The outcome of a resolution\<close>

lemma fire_timer_target:
  assumes up: "update_up env" and t: "findOne (\<lambda>t. transactionId t = tid) (db s) = Some t"
    and id: "transactionId t = tid"
  shows "findOne (\<lambda>t. transactionId t = tid) (db (fire_timer env tid s)) =
     Some (if outcome_draw env > 0.1
           then t\<lparr>status := ''success'', utrId := Some (generateUTRId (utr_draw env)),
                  paymentDate := Some (resolve_clock env)\<rparr>
           else t\<lparr>status := ''failed''\<rparr>)"
proof (cases "outcome_draw env > 0.1")
  case True
  with up have "db (fire_timer env tid s) = findOneAndUpdate (\<lambda>t. transactionId t = tid)
      (\<lambda>t. t\<lparr>status := ''success'', utrId := Some (generateUTRId (utr_draw env)),
              paymentDate := Some (resolve_clock env)\<rparr>) (db s)"
    by (simp add: fire_timer_def resolve_def)
  with True t id show ?thesis by (simp add: findOne_updated)
next
  case False
  with up have "db (fire_timer env tid s) = findOneAndUpdate (\<lambda>t. transactionId t = tid)
      (\<lambda>t. t\<lparr>status := ''failed''\<rparr>) (db s)"
    by (simp add: fire_timer_def resolve_def)
  with False t id show ?thesis by (simp add: findOne_updated)
qed

text \<open>
  Claim C2. When the timer of a created transaction fires (and the store accepts the
  update), the transaction is found pending and without reference, and the outcome is
  decided by the one draw of line 107: if the draw is greater than 0.1 the document gets
  status \<^verbatim>\<open>success\<close>, a freshly minted reference and the current time as payment date;
  otherwise it gets status \<^verbatim>\<open>failed\<close> and nothing else changes, so it has no reference.
  The draws in \<open>[0, 1)\<close> that end in \<^verbatim>\<open>success\<close> are exactly the open interval from 0.1 to 1,
  which is nine tenths of \<open>[0, 1)\<close>: the probability 0.9 of a uniform draw.
\<close>

theorem resolve_outcome:
  assumes "reachable s" and "tid \<in> set (timers s)" and "update_up env"
  shows "(\<exists>t. findOne (\<lambda>t. transactionId t = tid) (db s) = Some t
        \<and> status t = ''pending'' \<and> utrId t = None \<and> paymentDate t = None
        \<and> findOne (\<lambda>t. transactionId t = tid) (db (fire_timer env tid s)) =
            Some (if outcome_draw env > 0.1
                  then t\<lparr>status := ''success'', utrId := Some (generateUTRId (utr_draw env)),
                         paymentDate := Some (resolve_clock env)\<rparr>
                  else t\<lparr>status := ''failed''\<rparr>))
    \<and> {d. 0 \<le> d \<and> d < 1 \<and>
          (\<exists>t'. findOne (\<lambda>t. transactionId t = tid)
                  (db (fire_timer (env\<lparr>outcome_draw := d\<rparr>) tid s)) = Some t'
             \<and> status t' = ''success'')} = {0.1 <..< 1}"
proof -
  from assms(1) have inv: "server_inv s" by (rule reachable_server_inv)
  with assms(2) have "tid \<in> set (map transactionId (db s))" by (auto simp: server_inv_def)
  then obtain t where t: "findOne (\<lambda>t. transactionId t = tid) (db s) = Some t"
    "t \<in> set (db s)" "transactionId t = tid"
    using findOne_exists by blast
  from assms(1) t(2) have "consistent (timers s) t" by (rule reachable_consistent)
  with assms(2) t(3) have p: "status t = ''pending'' \<and> utrId t = None \<and> paymentDate t = None"
    by (simp add: consistent_waiting_pending)
  have after: "findOne (\<lambda>t. transactionId t = tid) (db (fire_timer e tid s)) =
     Some (if outcome_draw e > 0.1
           then t\<lparr>status := ''success'', utrId := Some (generateUTRId (utr_draw e)),
                  paymentDate := Some (resolve_clock e)\<rparr>
           else t\<lparr>status := ''failed''\<rparr>)" if "update_up e" for e
    using that t(1,3) by (rule fire_timer_target)
  have first: "\<exists>t. findOne (\<lambda>t. transactionId t = tid) (db s) = Some t
        \<and> status t = ''pending'' \<and> utrId t = None \<and> paymentDate t = None
        \<and> findOne (\<lambda>t. transactionId t = tid) (db (fire_timer env tid s)) =
            Some (if outcome_draw env > 0.1
                  then t\<lparr>status := ''success'', utrId := Some (generateUTRId (utr_draw env)),
                         paymentDate := Some (resolve_clock env)\<rparr>
                  else t\<lparr>status := ''failed''\<rparr>)"
    using t(1) p after [OF assms(3)] by blast
  have "(\<exists>t'. findOne (\<lambda>t. transactionId t = tid)
                  (db (fire_timer (env\<lparr>outcome_draw := d\<rparr>) tid s)) = Some t'
             \<and> status t' = ''success'') = (0.1 < d)" for d
    using after [of "env\<lparr>outcome_draw := d\<rparr>"] assms(3) by simp
  then have second: "{d. 0 \<le> d \<and> d < 1 \<and>
          (\<exists>t'. findOne (\<lambda>t. transactionId t = tid)
                  (db (fire_timer (env\<lparr>outcome_draw := d\<rparr>) tid s)) = Some t'
             \<and> status t' = ''success'')} = {0.1 <..< 1}"
    by auto
  from first second show ?thesis by (rule conjI)
qed

theorem resolve_outcome_witness:
  "reachable run_pending \<and> run_id \<in> set (timers run_pending) \<and> update_up run_success_env
   \<and> outcome_draw run_success_env = 0.5 \<and> outcome_draw run_failure_env = 0.05
   \<and> findOne (\<lambda>t. transactionId t = run_id) (db run_pending) = Some run_document
   \<and> findOne (\<lambda>t. transactionId t = run_id) (db (fire_timer run_success_env run_id run_pending))
       = Some (run_document\<lparr>status := ''success'', utrId := Some ''550000000000'',
             paymentDate := Some 1700000003000\<rparr>)
   \<and> findOne (\<lambda>t. transactionId t = run_id) (db (fire_timer run_failure_env run_id run_pending))
       = Some (run_document\<lparr>status := ''failed''\<rparr>)"
proof -
  note u = generateUTRId_half
  have m: "run_id \<in> set (timers run_pending)" by (simp add: run_pending_state)
  have f: "findOne (\<lambda>t. transactionId t = run_id) (db run_pending) = Some run_document"
    by (simp add: run_pending_state run_document_def run_id_def)
  have "update_up run_success_env" by (simp add: run_success_env_def)
  from resolve_outcome [OF reachable_run_pending m this]
  have w: "findOne (\<lambda>t. transactionId t = run_id) (db (fire_timer run_success_env run_id run_pending))
       = Some (run_document\<lparr>status := ''success'', utrId := Some ''550000000000'',
             paymentDate := Some 1700000003000\<rparr>)"
    by (simp add: f u run_success_env_def)
  have l: "findOne (\<lambda>t. transactionId t = run_id) (db (fire_timer run_failure_env run_id run_pending))
       = Some (run_document\<lparr>status := ''failed''\<rparr>)"
    using run_failed_state by (simp add: run_failed_def run_document_def run_id_def)
  show ?thesis
    using reachable_run_pending m f w l by (simp add: run_success_env_def run_failure_env_def)
qed

section \<open>Listing: filter, order and pages\<close>

lemma matches_build_filter:
  "matches (build_filter q) t =
     ((case query_status q of None \<Rightarrow> True | Some v \<Rightarrow> v = [] \<or> v = ''all'' \<or> status t = v)
      \<and> (case query_startDate q of None \<Rightarrow> True | Some lo \<Rightarrow> lo \<le> date t)
      \<and> (case query_endDate q of None \<Rightarrow> True | Some hi \<Rightarrow> date t \<le> hi))"
  by (simp add: build_filter_def with_status_def with_startDate_def with_endDate_def
      matches_def in_range_def split: option.splits)

lemma sort_newest_first_sorted: "sorted_wrt (\<lambda>a b. date b \<le> date a) (sort_newest_first ts)"
proof -
  have "sorted (map (\<lambda>t. - date t) (sort_newest_first ts))"
    unfolding sort_newest_first_def by (rule sorted_sort_key)
  then show ?thesis by (simp add: sorted_map)
qed

lemma sort_newest_first_mset: "mset (sort_newest_first ts) = mset ts"
  by (simp add: sort_newest_first_def)

lemma sort_newest_first_length: "length (sort_newest_first ts) = length ts"
  by (simp add: sort_newest_first_def)

lemma sort_newest_first_set: "set (sort_newest_first ts) = set ts"
  by (simp add: sort_newest_first_def)

lemma pages_least:
  fixes lim :: int and tot :: nat
  assumes "0 < lim"
  shows "(\<lceil>real tot / real_of_int lim\<rceil> - 1) * lim < int tot"
    and "int tot \<le> \<lceil>real tot / real_of_int lim\<rceil> * lim"
proof -
  let ?x = "real tot / real_of_int lim"
  from assms have l: "0 < real_of_int lim" by simp
  have "real_of_int \<lceil>?x\<rceil> - 1 < ?x" by linarith
  then have "(real_of_int \<lceil>?x\<rceil> - 1) * real_of_int lim < real tot"
    using l by (simp add: pos_less_divide_eq)
  then have "real_of_int ((\<lceil>?x\<rceil> - 1) * lim) < real_of_int (int tot)" by simp
  then show "(\<lceil>?x\<rceil> - 1) * lim < int tot" by (simp only: of_int_less_iff)
  have "?x \<le> real_of_int \<lceil>?x\<rceil>" by (rule le_of_int_ceiling)
  with pos_divide_le_eq [OF l, of "real tot" "real_of_int \<lceil>?x\<rceil>"]
  have "real tot \<le> real_of_int \<lceil>?x\<rceil> * real_of_int lim" by blast
  then have "real_of_int (int tot) \<le> real_of_int (\<lceil>?x\<rceil> * lim)" by simp
  then show "int tot \<le> \<lceil>?x\<rceil> * lim" by (simp only: of_int_le_iff)
qed

lemma list_transactions_reply:
  assumes "up" and "0 \<le> (page_of q - 1) * limit_of q"
  shows "list_transactions up q ts =
     Reply 200
       \<lparr>transactions =
          (let found = drop (nat ((page_of q - 1) * limit_of q))
             (sort_newest_first (filter (matches (build_filter q)) ts))
           in if limit_of q = 0 then found else take (nat \<bar>limit_of q\<bar>) found),
        pagination =
          \<lparr>total = length (filter (matches (build_filter q)) ts),
           page = page_of q, limit = limit_of q,
           pages = math_ceil (js_divide (of_nat (length (filter (matches (build_filter q)) ts)))
             (of_int (limit_of q)))\<rparr>\<rparr>"
  using assms
  by (simp add: list_transactions_def find_page_def countDocuments_def Let_def not_less [symmetric])

lemma list_transactions_failure:
  assumes "\<not> up \<or> (page_of q - 1) * limit_of q < 0"
  shows "list_transactions up q ts = Failure 500 ''Server error''"
  using assms by (auto simp: list_transactions_def find_page_def Let_def)

text \<open>
  Claim C5. For a query whose page and limit are positive integers (the store answering),
  the answer is 200 and its records are the slice of length at most \<open>limit\<close> that starts at
  offset \<open>(page - 1) * limit\<close> of the matching documents sorted newest first (a
  rearrangement of the matching documents in descending date); \<open>total\<close> is the number of
  all matching documents; \<open>pages\<close> is the ceiling of \<open>total / limit\<close>, the least number of
  pages of that size that hold \<open>total\<close> documents; and a page that starts at or beyond
  \<open>total\<close> has no records, with the same \<open>total\<close>.
\<close>

theorem list_page:
  assumes "up" and "0 < page_of q" and "0 < limit_of q"
  shows "\<exists>r. list_transactions up q ts = Reply 200 r
    \<and> transactions r = take (nat (limit_of q)) (drop (nat ((page_of q - 1) * limit_of q))
         (sort_newest_first (filter (matches (build_filter q)) ts)))
    \<and> mset (sort_newest_first (filter (matches (build_filter q)) ts))
         = mset (filter (matches (build_filter q)) ts)
    \<and> sorted_wrt (\<lambda>a b. date b \<le> date a) (sort_newest_first (filter (matches (build_filter q)) ts))
    \<and> sorted_wrt (\<lambda>a b. date b \<le> date a) (transactions r)
    \<and> length (transactions r) \<le> nat (limit_of q)
    \<and> total (pagination r) = length (filter (matches (build_filter q)) ts)
    \<and> page (pagination r) = page_of q \<and> limit (pagination r) = limit_of q
    \<and> pages (pagination r)
         = Finite (of_int \<lceil>real (total (pagination r)) / real_of_int (limit_of q)\<rceil>)
    \<and> (\<lceil>real (total (pagination r)) / real_of_int (limit_of q)\<rceil> - 1) * limit_of q
         < int (total (pagination r))
    \<and> int (total (pagination r))
         \<le> \<lceil>real (total (pagination r)) / real_of_int (limit_of q)\<rceil> * limit_of q
    \<and> (int (total (pagination r)) \<le> (page_of q - 1) * limit_of q \<longrightarrow> transactions r = [])"
proof -
  let ?m = "filter (matches (build_filter q)) ts"
  let ?s = "sort_newest_first ?m"
  let ?k = "nat ((page_of q - 1) * limit_of q)"
  let ?r = "\<lparr>transactions = take (nat (limit_of q)) (drop ?k ?s),
        pagination =
          \<lparr>total = length ?m, page = page_of q, limit = limit_of q,
           pages = Finite (of_int \<lceil>real (length ?m) / real_of_int (limit_of q)\<rceil>)\<rparr>\<rparr>"
  from assms(2,3) have skip: "0 \<le> (page_of q - 1) * limit_of q" by simp
  have reply: "list_transactions up q ts = Reply 200 ?r"
    using assms(3) by (simp add: list_transactions_reply [OF assms(1) skip] Let_def js_divide_def)
  have srt: "sorted_wrt (\<lambda>a b. date b \<le> date a) ?s" by (rule sort_newest_first_sorted)
  then have "sorted_wrt (\<lambda>a b. date b \<le> date a) (drop ?k ?s)" by (rule sorted_wrt_drop)
  then have srt': "sorted_wrt (\<lambda>a b. date b \<le> date a) (take (nat (limit_of q)) (drop ?k ?s))"
    by (rule sorted_wrt_take)
  have beyond: "int (length ?m) \<le> (page_of q - 1) * limit_of q \<longrightarrow>
      take (nat (limit_of q)) (drop ?k ?s) = []"
  proof
    assume "int (length ?m) \<le> (page_of q - 1) * limit_of q"
    then have "length ?s \<le> ?k" by (simp add: sort_newest_first_length)
    then show "take (nat (limit_of q)) (drop ?k ?s) = []" by simp
  qed
  note least = pages_least [OF assms(3), of "length ?m"]
  have "transactions ?r = take (nat (limit_of q)) (drop ?k ?s)
    \<and> mset ?s = mset ?m
    \<and> sorted_wrt (\<lambda>a b. date b \<le> date a) ?s
    \<and> sorted_wrt (\<lambda>a b. date b \<le> date a) (transactions ?r)
    \<and> length (transactions ?r) \<le> nat (limit_of q)
    \<and> total (pagination ?r) = length ?m
    \<and> page (pagination ?r) = page_of q \<and> limit (pagination ?r) = limit_of q
    \<and> pages (pagination ?r)
         = Finite (of_int \<lceil>real (total (pagination ?r)) / real_of_int (limit_of q)\<rceil>)
    \<and> (\<lceil>real (total (pagination ?r)) / real_of_int (limit_of q)\<rceil> - 1) * limit_of q
         < int (total (pagination ?r))
    \<and> int (total (pagination ?r))
         \<le> \<lceil>real (total (pagination ?r)) / real_of_int (limit_of q)\<rceil> * limit_of q
    \<and> (int (total (pagination ?r)) \<le> (page_of q - 1) * limit_of q \<longrightarrow> transactions ?r = [])"
    using srt srt' beyond least by (simp add: sort_newest_first_mset)
  with reply show ?thesis by blast
qed

theorem list_page_witness:
  "list_transactions True (every_transaction\<lparr>query_page := Some 2, query_limit := Some 2\<rparr>)
      three_documents
     = Reply 200
         \<lparr>transactions = [run_document\<lparr>transactionId := ''TXNA'', date := 1\<rparr>],
          pagination = \<lparr>total = 3, page = 2, limit = 2, pages = Finite 2\<rparr>\<rparr>
   \<and> list_transactions True (every_transaction\<lparr>query_page := Some 3, query_limit := Some 2\<rparr>)
      three_documents
     = Reply 200
         \<lparr>transactions = [],
          pagination = \<lparr>total = 3, page = 3, limit = 2, pages = Finite 2\<rparr>\<rparr>"
proof -
  let ?q = "every_transaction\<lparr>query_page := Some 2, query_limit := Some 2\<rparr>"
  let ?q3 = "every_transaction\<lparr>query_page := Some 3, query_limit := Some 2\<rparr>"
  have p: "page_of ?q = 2" "limit_of ?q = 2" "page_of ?q3 = 3" "limit_of ?q3 = 2"
    by (simp_all add: page_of_def limit_of_def every_transaction_def)
  have f: "filter (matches (build_filter ?q)) three_documents = three_documents"
    "filter (matches (build_filter ?q3)) three_documents = three_documents"
    by (simp_all add: matches_build_filter every_transaction_def)
  note s = three_documents_sorted
  have c: "\<lceil>(3::real) / 2\<rceil> = 2" by (simp add: ceiling_eq_iff)
  have l: "length three_documents = 3" by (simp add: three_documents_def)
  from list_page [of True ?q three_documents]
  have a: "list_transactions True ?q three_documents
     = Reply 200
         \<lparr>transactions = [run_document\<lparr>transactionId := ''TXNA'', date := 1\<rparr>],
          pagination = \<lparr>total = 3, page = 2, limit = 2, pages = Finite 2\<rparr>\<rparr>"
    by (auto simp: p f s c l numeral_2_eq_2)
  from list_page [of True ?q3 three_documents]
  have b: "list_transactions True ?q3 three_documents
     = Reply 200
         \<lparr>transactions = [],
          pagination = \<lparr>total = 3, page = 3, limit = 2, pages = Finite 2\<rparr>\<rparr>"
    by (auto simp: p f s c l)
  from a b show ?thesis by (rule conjI)
qed

text \<open>
  Claim C6. A document satisfies the filter of a query exactly when it satisfies the
  conjunction of: equality with the given status, required only when a status is given
  that is neither empty nor \<^verbatim>\<open>all\<close>; the lower bound on its date, when \<^verbatim>\<open>startDate\<close> is given;
  and the upper bound, when \<^verbatim>\<open>endDate\<close> is given. When both dates are given, \<open>total\<close>
  counts exactly the documents with the date in the closed interval between them (and
  the status, when required), every returned record is one of these, and on a first page
  that holds them all the returned records are exactly these.
\<close>

theorem list_filter:
  "matches (build_filter q) t =
     ((case query_status q of None \<Rightarrow> True | Some v \<Rightarrow> v = [] \<or> v = ''all'' \<or> status t = v)
      \<and> (case query_startDate q of None \<Rightarrow> True | Some a \<Rightarrow> a \<le> date t)
      \<and> (case query_endDate q of None \<Rightarrow> True | Some b \<Rightarrow> date t \<le> b))
   \<and> (query_startDate q = Some lo \<and> query_endDate q = Some hi
        \<and> list_transactions up q ts = Reply code r \<longrightarrow>
      total (pagination r) = length (filter (\<lambda>t.
          (case query_status q of None \<Rightarrow> True | Some v \<Rightarrow> v = [] \<or> v = ''all'' \<or> status t = v)
          \<and> lo \<le> date t \<and> date t \<le> hi) ts)
      \<and> set (transactions r) \<subseteq> {t \<in> set ts.
          (case query_status q of None \<Rightarrow> True | Some v \<Rightarrow> v = [] \<or> v = ''all'' \<or> status t = v)
          \<and> lo \<le> date t \<and> date t \<le> hi}
      \<and> (page_of q = 1 \<and> int (total (pagination r)) \<le> limit_of q \<longrightarrow>
           mset (transactions r) = mset (filter (\<lambda>t.
             (case query_status q of None \<Rightarrow> True | Some v \<Rightarrow> v = [] \<or> v = ''all'' \<or> status t = v)
             \<and> lo \<le> date t \<and> date t \<le> hi) ts)))"
proof (intro conjI impI)
  show "matches (build_filter q) t =
     ((case query_status q of None \<Rightarrow> True | Some v \<Rightarrow> v = [] \<or> v = ''all'' \<or> status t = v)
      \<and> (case query_startDate q of None \<Rightarrow> True | Some a \<Rightarrow> a \<le> date t)
      \<and> (case query_endDate q of None \<Rightarrow> True | Some b \<Rightarrow> date t \<le> b))"
    by (rule matches_build_filter)
next
  let ?P = "\<lambda>t. (case query_status q of None \<Rightarrow> True | Some v \<Rightarrow> v = [] \<or> v = ''all'' \<or> status t = v)
          \<and> lo \<le> date t \<and> date t \<le> hi"
  assume a: "query_startDate q = Some lo \<and> query_endDate q = Some hi
        \<and> list_transactions up q ts = Reply code r"
  then have m: "matches (build_filter q) = ?P"
    by (auto simp: matches_build_filter fun_eq_iff)
  have ok: "up \<and> 0 \<le> (page_of q - 1) * limit_of q"
  proof (rule ccontr)
    assume "\<not> (up \<and> 0 \<le> (page_of q - 1) * limit_of q)"
    then have "\<not> up \<or> (page_of q - 1) * limit_of q < 0" by auto
    then have "list_transactions up q ts = Failure 500 ''Server error''"
      by (rule list_transactions_failure)
    with a show False by simp
  qed
  then have "list_transactions up q ts =
     Reply 200
       \<lparr>transactions =
          (let found = drop (nat ((page_of q - 1) * limit_of q))
             (sort_newest_first (filter ?P ts))
           in if limit_of q = 0 then found else take (nat \<bar>limit_of q\<bar>) found),
        pagination =
          \<lparr>total = length (filter ?P ts),
           page = page_of q, limit = limit_of q,
           pages = math_ceil (js_divide (of_nat (length (filter ?P ts)))
             (of_int (limit_of q)))\<rparr>\<rparr>"
    using list_transactions_reply [of up q ts] by (simp add: m)
  with a have r: "transactions r =
          (let found = drop (nat ((page_of q - 1) * limit_of q))
             (sort_newest_first (filter ?P ts))
           in if limit_of q = 0 then found else take (nat \<bar>limit_of q\<bar>) found)"
    and tot: "total (pagination r) = length (filter ?P ts)"
    by auto
  show "total (pagination r) = length (filter ?P ts)" by (rule tot)
  have "set (transactions r) \<subseteq> set (sort_newest_first (filter ?P ts))"
    unfolding r Let_def by (auto dest: in_set_takeD in_set_dropD)
  then show "set (transactions r) \<subseteq> {t \<in> set ts. ?P t}"
    by (auto simp: sort_newest_first_set)
  assume first: "page_of q = 1 \<and> int (total (pagination r)) \<le> limit_of q"
  then have "length (sort_newest_first (filter ?P ts)) \<le> nat \<bar>limit_of q\<bar>"
    unfolding tot sort_newest_first_length by linarith
  with first have "transactions r = sort_newest_first (filter ?P ts)"
    unfolding r Let_def by simp
  then show "mset (transactions r) = mset (filter ?P ts)"
    by (simp add: sort_newest_first_mset)
qed

theorem list_filter_witness:
  "list_transactions True
       (every_transaction\<lparr>query_status := Some ''all'', query_startDate := Some 2,
          query_endDate := Some 3\<rparr>) three_documents
     = Reply 200
         \<lparr>transactions =
            [run_document\<lparr>transactionId := ''TXNB'', date := 3, status := ''success'',
               utrId := Some ''550000000000'', paymentDate := Some 4\<rparr>,
             run_document\<lparr>transactionId := ''TXNC'', date := 2\<rparr>],
          pagination = \<lparr>total = 2, page = 1, limit = 10, pages = Finite 1\<rparr>\<rparr>
   \<and> total (pagination
         \<lparr>transactions =
            [run_document\<lparr>transactionId := ''TXNB'', date := 3, status := ''success'',
               utrId := Some ''550000000000'', paymentDate := Some 4\<rparr>,
             run_document\<lparr>transactionId := ''TXNC'', date := 2\<rparr>],
          pagination = \<lparr>total = 2, page = 1, limit = 10, pages = Finite 1\<rparr>\<rparr>)
     = length (filter (\<lambda>t. 2 \<le> date t \<and> date t \<le> 3) three_documents)"
proof -
  let ?q = "every_transaction\<lparr>query_status := Some ''all'', query_startDate := Some 2,
          query_endDate := Some 3\<rparr>"
  let ?r = "\<lparr>transactions =
            [run_document\<lparr>transactionId := ''TXNB'', date := 3, status := ''success'',
               utrId := Some ''550000000000'', paymentDate := Some 4\<rparr>,
             run_document\<lparr>transactionId := ''TXNC'', date := 2\<rparr>],
          pagination = \<lparr>total = 2, page = 1, limit = 10, pages = Finite (1::real)\<rparr>\<rparr>"
  have c: "\<lceil>(1::real) / 5\<rceil> = 1" by (simp add: ceiling_eq_iff)
  have e: "list_transactions True ?q three_documents = Reply 200 ?r"
    by (simp add: list_transactions_def find_page_def countDocuments_def Let_def page_of_def
        limit_of_def every_transaction_def matches_build_filter three_documents_def
        run_document_def sort_newest_first_def js_divide_def c)
  from list_filter [of ?q _ 2 3 True three_documents 200 ?r] e
  have t: "total (pagination ?r) = length (filter (\<lambda>t. 2 \<le> date t \<and> date t \<le> 3) three_documents)"
    by (simp add: every_transaction_def)
  from e t show ?thesis by (rule conjI)
qed

section \<open>Listing with degenerate page or limit\<close>

lemma every_transaction_matches:
  "filter (matches (build_filter (every_transaction\<lparr>query_page := pg, query_limit := lm\<rparr>)))
     ts = ts"
  by (simp add: matches_build_filter every_transaction_def)

text \<open>
  Claim C7, as stated, fails. On three stored documents, a query with \<^verbatim>\<open>limit=0\<close> is not
  answered like the query without a limit: it reports the limit 0 and \<open>pages\<close> infinite,
  where the default reports the limit 10 and one page. A query with \<^verbatim>\<open>page=0\<close> is not
  answered like the query with \<^verbatim>\<open>page=1\<close>: its skip is \<open>- 10\<close>, the store rejects it, and the
  answer is the 500 of the \<^verbatim>\<open>catch\<close> block.
\<close>

theorem limit_zero_not_default:
  "list_transactions True (every_transaction\<lparr>query_page := None, query_limit := Some 0\<rparr>)
      three_documents
     = Reply 200
         \<lparr>transactions = sort_newest_first three_documents,
          pagination = \<lparr>total = 3, page = 1, limit = 0, pages = PosInfinity\<rparr>\<rparr>
   \<and> list_transactions True (every_transaction\<lparr>query_page := None, query_limit := None\<rparr>)
      three_documents
     = Reply 200
         \<lparr>transactions = sort_newest_first three_documents,
          pagination = \<lparr>total = 3, page = 1, limit = 10, pages = Finite 1\<rparr>\<rparr>
   \<and> list_transactions True (every_transaction\<lparr>query_page := Some 0, query_limit := None\<rparr>)
      three_documents
     = Failure 500 ''Server error''
   \<and> list_transactions True (every_transaction\<lparr>query_page := Some 1, query_limit := None\<rparr>)
      three_documents
     = Reply 200
         \<lparr>transactions = sort_newest_first three_documents,
          pagination = \<lparr>total = 3, page = 1, limit = 10, pages = Finite 1\<rparr>\<rparr>"
proof -
  have c: "\<lceil>(3::real) / 10\<rceil> = 1" by (simp add: ceiling_eq_iff)
  have l: "length three_documents = 3" "length (sort_newest_first three_documents) = 3"
    by (simp_all add: three_documents_def sort_newest_first_length)
  show ?thesis
    by (simp add: list_transactions_def find_page_def countDocuments_def Let_def page_of_def
        limit_of_def every_transaction_matches js_divide_def c l)
qed

text \<open>
  Claim C7, amended. No query makes the handler crash: the answer is either 200 with
  records and pagination or 500 with \<^verbatim>\<open>Server error\<close>. Degenerate inputs are not replaced
  by 1 or by the default: a 200 answer reports \<open>page\<close> and \<open>limit\<close> as they were given and
  \<open>pages\<close> as \<^verbatim>\<open>Math.ceil(total / limit)\<close>, which for the limit 0 is NaN when nothing matches
  and infinite otherwise; a query with the limit 0 is answered 200 whenever the store
  answers; and a query with a non-positive page and a positive limit is answered 500.
\<close>

theorem list_degenerate:
  "(list_transactions up q ts = Failure 500 ''Server error''
      \<or> (\<exists>r. list_transactions up q ts = Reply 200 r))
   \<and> (list_transactions up q ts = Reply code r \<longrightarrow>
        page (pagination r) = page_of q \<and> limit (pagination r) = limit_of q
        \<and> total (pagination r) = length (filter (matches (build_filter q)) ts)
        \<and> pages (pagination r)
             = math_ceil (js_divide (real (total (pagination r))) (real_of_int (limit_of q)))
        \<and> (limit_of q = 0 \<longrightarrow>
             pages (pagination r)
               = (if total (pagination r) = 0 then NotANumber else PosInfinity)))
   \<and> (up \<and> limit_of q = 0 \<longrightarrow> (\<exists>r. list_transactions up q ts = Reply 200 r))
   \<and> (page_of q \<le> 0 \<and> 0 < limit_of q \<longrightarrow>
        list_transactions up q ts = Failure 500 ''Server error'')"
proof (intro conjI impI)
  show "list_transactions up q ts = Failure 500 ''Server error''
      \<or> (\<exists>r. list_transactions up q ts = Reply 200 r)"
  proof (cases "up \<and> 0 \<le> (page_of q - 1) * limit_of q")
    case True
    then show ?thesis using list_transactions_reply [of up q ts] by blast
  next
    case False
    then have "\<not> up \<or> (page_of q - 1) * limit_of q < 0" by auto
    then show ?thesis by (simp add: list_transactions_failure)
  qed
next
  assume a: "list_transactions up q ts = Reply code r"
  have ok: "up \<and> 0 \<le> (page_of q - 1) * limit_of q"
  proof (rule ccontr)
    assume "\<not> (up \<and> 0 \<le> (page_of q - 1) * limit_of q)"
    then have "\<not> up \<or> (page_of q - 1) * limit_of q < 0" by auto
    then have "list_transactions up q ts = Failure 500 ''Server error''"
      by (rule list_transactions_failure)
    with a show False by simp
  qed
  with a list_transactions_reply [of up q ts]
  have p: "pagination r =
          \<lparr>total = length (filter (matches (build_filter q)) ts),
           page = page_of q, limit = limit_of q,
           pages = math_ceil (js_divide (of_nat (length (filter (matches (build_filter q)) ts)))
             (of_int (limit_of q)))\<rparr>"
    by auto
  show "page (pagination r) = page_of q" by (simp add: p)
  show "limit (pagination r) = limit_of q" by (simp add: p)
  show "total (pagination r) = length (filter (matches (build_filter q)) ts)" by (simp add: p)
  show "pages (pagination r)
      = math_ceil (js_divide (real (total (pagination r))) (real_of_int (limit_of q)))"
    by (simp add: p)
  assume "limit_of q = 0"
  then show "pages (pagination r) = (if total (pagination r) = 0 then NotANumber else PosInfinity)"
    by (simp add: p js_divide_def)
next
  assume "up \<and> limit_of q = 0"
  then show "\<exists>r. list_transactions up q ts = Reply 200 r"
    using list_transactions_reply [of up q ts] by simp
next
  assume "page_of q \<le> 0 \<and> 0 < limit_of q"
  then have "(page_of q - 1) * limit_of q < 0" by (simp add: mult_neg_pos)
  then show "list_transactions up q ts = Failure 500 ''Server error''"
    by (simp add: list_transactions_failure)
qed

theorem list_degenerate_witness:
  "list_transactions True (every_transaction\<lparr>query_page := None, query_limit := Some 0\<rparr>) []
     = Reply 200
         \<lparr>transactions = [],
          pagination = \<lparr>total = 0, page = 1, limit = 0, pages = NotANumber\<rparr>\<rparr>
   \<and> list_transactions True (every_transaction\<lparr>query_page := Some (- 1), query_limit := Some 5\<rparr>)
        three_documents
     = Failure 500 ''Server error''"
proof -
  let ?q = "every_transaction\<lparr>query_page := None, query_limit := Some 0\<rparr>"
  let ?n = "every_transaction\<lparr>query_page := Some (- 1), query_limit := Some 5\<rparr>"
  have z: "limit_of ?q = 0" "page_of ?q = 1" by (simp_all add: limit_of_def page_of_def)
  have n: "page_of ?n \<le> 0 \<and> 0 < limit_of ?n" by (simp add: limit_of_def page_of_def)
  from list_degenerate [of True ?q "[]", THEN conjunct2, THEN conjunct2, THEN conjunct1] z
  obtain r where r: "list_transactions True ?q [] = Reply 200 r" by auto
  from list_degenerate [of True ?q "[]" 200 r, THEN conjunct2, THEN conjunct1] r z
  have "pagination r = \<lparr>total = 0, page = 1, limit = 0, pages = NotANumber\<rparr>"
    by (cases "pagination r") simp
  moreover from r have "transactions r = []"
    by (auto simp: list_transactions_def find_page_def Let_def z sort_newest_first_def)
  ultimately have "r = \<lparr>transactions = [], pagination = \<lparr>total = 0, page = 1, limit = 0, pages = NotANumber\<rparr>\<rparr>"
    by (cases r) simp
  with r have a: "list_transactions True ?q []
     = Reply 200 \<lparr>transactions = [], pagination = \<lparr>total = 0, page = 1, limit = 0, pages = NotANumber\<rparr>\<rparr>"
    by simp
  from list_degenerate [of True ?n three_documents, THEN conjunct2, THEN conjunct2, THEN conjunct2] n
  have b: "list_transactions True ?n three_documents = Failure 500 ''Server error''" by simp
  from a b show ?thesis by (rule conjI)
qed

end
